theory Spec2Isabelle
  imports Complex_Main "HOL-Library.AList"
begin

section \<open>Errors\<close>

text \<open>
  The Python exceptions the modelled code can raise.  A function that mutates its
  receiver returns the state it leaves behind together with its result, so that an
  exception raised half-way keeps the mutations made before it.
\<close>

datatype py_error = KeyError | IndexError | ZeroDivisionError | AttributeError | TypeError | NameError | ParameterError

section \<open>ScalingState: \<open>Sensors.minmax\<close> and \<open>Sensors.scale_data\<close>\<close>

text \<open>
  One element of \<open>self.minmax\<close> is a dictionary with the key \<open>'id'\<close> and the keys
  \<open>'<type>_min'\<close>, \<open>'<type>_max'\<close>.  The \<open>'id'\<close> entry is the field \<open>ident\<close>
  (\<open>None\<close> until \<open>set_ids\<close> ran), the other entries are the map \<open>bounds\<close>.
  Python floats are modelled as reals.
\<close>

record minmax_entry =
  ident :: "string option"
  bounds :: "string \<rightharpoonup> real list"

definition init_bounds :: "(string \<times> real list) list" where
  "init_bounds =
     [(''acc_min'', [0, 0, 0]), (''gyr_min'', [0, 0, 0]),
      (''mag_min'', [0, 0, 0]), (''ori_min'', [0, 0, 0]), (''tot_a_min'', [0]),
      (''rot_min'', [0]), (''acc_max'', [1, 1, 1]), (''gyr_max'', [1, 1, 1]),
      (''mag_max'', [1, 1, 1]), (''ori_max'', [1, 1, 1]), (''tot_a_max'', [1]),
      (''rot_max'', [1])]"

definition init_entry :: minmax_entry where
  "init_entry = \<lparr> ident = None, bounds = map_of init_bounds \<rparr>"

definition init_minmax :: "minmax_entry list" where
  "init_minmax = replicate 9 init_entry"

text \<open>\<open>Sensors.locations\<close>: hardware id to (position name, dancer number, sensor number).\<close>

definition locations :: "(string \<times> (string \<times> nat \<times> nat)) list" where
  "locations =
     [(''00B4F11A'', (''left'', 1, 1)),
      (''00B4F114'', (''right'', 1, 2)),
      (''00B4F115'', (''torso'', 1, 3)),
      (''00B4F11B'', (''left'', 2, 1)),
      (''00B4F116'', (''right'', 2, 2)),
      (''00B4F119'', (''torso'', 2, 3)),
      (''00B4F11C'', (''left'', 3, 1)),
      (''00B4F107'', (''right'', 3, 2)),
      (''00B4F11D'', (''torso'', 3, 3))]"

text \<open>
  \<open>set_ids\<close>: the i-th connected device's id is looked up in \<open>locations\<close> (a missing id
  raises \<open>KeyError\<close>) and stored in \<open>minmax[i]['id']\<close> (\<open>IndexError\<close> beyond the nine
  entries).  The dashboard calls are not modelled.
\<close>

fun set_ids_loop :: "nat \<Rightarrow> string list \<Rightarrow> minmax_entry list \<Rightarrow> py_error option \<times> minmax_entry list" where
  "set_ids_loop i [] mm = (None, mm)"
| "set_ids_loop i (sensor_id # rest) mm =
     (case map_of locations sensor_id of
        None \<Rightarrow> (Some KeyError, mm)
      | Some loc \<Rightarrow>
          if i < length mm
          then set_ids_loop (Suc i) rest (mm[i := (mm ! i)\<lparr>ident := Some sensor_id\<rparr>])
          else (Some IndexError, mm))"

definition set_ids :: "string list \<Rightarrow> minmax_entry list \<Rightarrow> py_error option \<times> minmax_entry list" where
  "set_ids device_ids mm = set_ids_loop 0 device_ids mm"

text \<open>
  The loop body of \<open>scale_data\<close>.  \<open>minimum\<close> and \<open>maximum\<close> are read before the
  bounds are updated and the quotient is computed from these two local values.
  The operands are Python floats, so a zero divisor raises \<open>ZeroDivisionError\<close>.
\<close>

fun scale_loop :: "string \<Rightarrow> nat \<Rightarrow> real list \<Rightarrow> minmax_entry \<Rightarrow> real list
                     \<Rightarrow> (py_error + real list) \<times> minmax_entry" where
  "scale_loop data_type i [] sensor scaled_data = (Inr scaled_data, sensor)"
| "scale_loop data_type i (val # rest) sensor scaled_data =
     (case bounds sensor (data_type @ ''_min'') of
        None \<Rightarrow> (Inl KeyError, sensor)
      | Some mins \<Rightarrow>
          if length mins \<le> i then (Inl IndexError, sensor)
          else
            (case bounds sensor (data_type @ ''_max'') of
               None \<Rightarrow> (Inl KeyError, sensor)
             | Some maxs \<Rightarrow>
                 if length maxs \<le> i then (Inl IndexError, sensor)
                 else
                   let minimum = mins ! i;
                       maximum = maxs ! i;
                       sensor' =
                         (if val < minimum
                          then sensor\<lparr>bounds := (bounds sensor)(data_type @ ''_min'' \<mapsto> mins[i := val])\<rparr>
                          else if val > maximum
                          then sensor\<lparr>bounds := (bounds sensor)(data_type @ ''_max'' \<mapsto> maxs[i := val])\<rparr>
                          else sensor)
                   in if maximum - minimum = 0 then (Inl ZeroDivisionError, sensor')
                      else scale_loop data_type (Suc i) rest sensor'
                             (scaled_data @ [(val - minimum) / (maximum - minimum)])))"

text \<open>
  \<open>scale_data\<close>: the first entry of \<open>minmax\<close> whose id is \<open>sensor_id\<close> is the one
  scaled against and mutated; with no such entry the \<open>[0]\<close> raises \<open>IndexError\<close>.
\<close>

fun scale_data :: "minmax_entry list \<Rightarrow> string \<Rightarrow> string \<Rightarrow> real list
                     \<Rightarrow> (py_error + real list) \<times> minmax_entry list" where
  "scale_data [] sensor_id data_type value = (Inl IndexError, [])"
| "scale_data (sensor # others) sensor_id data_type value =
     (if ident sensor = Some sensor_id
      then (let (r, sensor') = scale_loop data_type 0 value sensor [] in (r, sensor' # others))
      else (let (r, others') = scale_data others sensor_id data_type value in (r, sensor # others')))"

text \<open>A sequence of \<open>scale_data\<close> calls (sensor id, data type, raw vector), results dropped.\<close>

fun scale_all :: "minmax_entry list \<Rightarrow> (string \<times> string \<times> real list) list \<Rightarrow> minmax_entry list" where
  "scale_all mm [] = mm"
| "scale_all mm ((sensor_id, data_type, value) # calls) =
     scale_all (snd (scale_data mm sensor_id data_type value)) calls"

text \<open>The stored bound of entry \<open>k\<close>, data type \<open>dt\<close>, component \<open>i\<close>, when there is one.\<close>

definition stored :: "minmax_entry list \<Rightarrow> nat \<Rightarrow> string \<Rightarrow> nat \<Rightarrow> real option" where
  "stored mm k key i =
     (if k < length mm
      then (case bounds (mm ! k) key of
              None \<Rightarrow> None
            | Some xs \<Rightarrow> if i < length xs then Some (xs ! i) else None)
      else None)"

definition stored_min :: "minmax_entry list \<Rightarrow> nat \<Rightarrow> string \<Rightarrow> nat \<Rightarrow> real option" where
  "stored_min mm k dt i = stored mm k (dt @ ''_min'') i"

definition stored_max :: "minmax_entry list \<Rightarrow> nat \<Rightarrow> string \<Rightarrow> nat \<Rightarrow> real option" where
  "stored_max mm k dt i = stored mm k (dt @ ''_max'') i"

text \<open>The state after \<open>__init__\<close> and \<open>set_ids\<close> for the given connected devices.\<close>

definition configured :: "string list \<Rightarrow> minmax_entry list" where
  "configured device_ids = snd (set_ids device_ids init_minmax)"


section \<open>TimeSeriesStore: \<open>dancers()\<close> and \<open>Sensors.send_data\<close>\<close>

text \<open>Python's \<open>f'{n}'\<close> for a non-negative integer: its decimal digits.\<close>

definition digit_char :: "nat \<Rightarrow> char" where
  "digit_char d = ''0123456789'' ! d"

fun str_nat :: "nat \<Rightarrow> string" where
  "str_nat n = (if n < 10 then [digit_char n] else str_nat (n div 10) @ [digit_char (n mod 10)])"

declare str_nat.simps [simp del]

definition snsr :: "nat \<Rightarrow> string" where
  "snsr i = ''snsr_'' @ str_nat i"

definition dancer_key :: "nat \<Rightarrow> string" where
  "dancer_key k = ''dancer_'' @ str_nat k"

definition correlation_label :: "string \<Rightarrow> string" where
  "correlation_label label = ''correlation_'' @ label"

text \<open>
  A sensor's dictionary maps a label to a list of samples, or (under a
  \<open>correlation_<label>\<close> key) to a dictionary of lists.  Dictionaries are association
  lists in insertion order, which is the order Python iterates them in; assignment to a
  key is \<open>AList.update\<close> (in place for a present key, at the end for a new one).
\<close>

datatype entry = Series "real list" | CorrMap "(string \<times> real list) list"

type_synonym slot = "(string \<times> entry) list"
type_synonym dancer = "(string \<times> slot) list"

definition labels :: "string list" where
  "labels = [''tot_a'', ''b_tot_a'', ''rot'', ''ori_p'', ''ori_r'', ''ori_y'', ''acc_x'',
             ''acc_y'', ''acc_z'', ''gyr_x'', ''gyr_y'', ''gyr_z'', ''mag_x'', ''mag_y'', ''mag_z'']"

text \<open>\<open>[0] * 500\<close>\<close>

definition zeros :: "real list" where
  "zeros = replicate 500 0"

text \<open>First loop of \<open>dancers()\<close>: one dictionary per dancer with an empty dictionary per sensor.\<close>

definition empty_dancer :: "nat \<Rightarrow> dancer" where
  "empty_dancer number_of_sensors =
     fold (\<lambda>sensor_num d. AList.update (snsr sensor_num) [] d) [1..<number_of_sensors + 1] []"

text \<open>
  \<open>dancer1[sens][label] = e\<close>.  Inside \<open>dancers()\<close> the key \<open>sens\<close> is always one the
  first loop created.
\<close>

definition set_label :: "string \<Rightarrow> string \<Rightarrow> entry \<Rightarrow> dancer \<Rightarrow> dancer" where
  "set_label sens label e d = AList.map_entry sens (AList.update label e) d"

definition zero_series :: "nat \<Rightarrow> dancer \<Rightarrow> dancer" where
  "zero_series number_of_sensors d =
     fold (\<lambda>i d. fold (\<lambda>label d. set_label (snsr i) label (Series zeros) d) labels d)
       [1..<number_of_sensors + 1] d"

text \<open>The dictionary stored under a new \<open>correlation_<label>\<close> key.\<close>

definition new_correlation :: "nat \<Rightarrow> nat \<Rightarrow> nat \<Rightarrow> (string \<times> real list) list" where
  "new_correlation number_of_dancers number_of_sensors dancer1_idx =
     fold (\<lambda>dancer2_idx c. if dancer2_idx = dancer1_idx then c
                            else AList.update (dancer_key (dancer2_idx + 1)) zeros c)
       [0..<number_of_dancers]
       (fold (\<lambda>jj c. AList.update (snsr jj) zeros c) [1..<number_of_sensors + 1] [])"

definition has_label :: "dancer \<Rightarrow> string \<Rightarrow> string \<Rightarrow> bool" where
  "has_label d sens label =
     (case map_of d sens of None \<Rightarrow> False | Some sl \<Rightarrow> map_of sl label \<noteq> None)"

definition add_correlation :: "nat \<Rightarrow> nat \<Rightarrow> nat \<Rightarrow> string \<Rightarrow> string \<Rightarrow> dancer \<Rightarrow> dancer" where
  "add_correlation number_of_dancers number_of_sensors dancer1_idx label sens d =
     (if has_label d sens (correlation_label label) then d
      else set_label sens (correlation_label label)
             (CorrMap (new_correlation number_of_dancers number_of_sensors dancer1_idx)) d)"

definition correlation_series :: "nat \<Rightarrow> nat \<Rightarrow> nat \<Rightarrow> dancer \<Rightarrow> dancer" where
  "correlation_series number_of_dancers number_of_sensors dancer1_idx d =
     fold (\<lambda>i d.
        fold (\<lambda>j d.
           fold (\<lambda>label d.
              fold (\<lambda>sens d. add_correlation number_of_dancers number_of_sensors dancer1_idx label sens d)
                [snsr i, snsr j] d)
             labels d)
          [i + 1..<number_of_sensors + 1] d)
       [1..<number_of_sensors] d"

definition dancers :: "nat \<Rightarrow> nat \<Rightarrow> dancer list" where
  "dancers number_of_dancers number_of_sensors =
     map (\<lambda>dancer1_idx. correlation_series number_of_dancers number_of_sensors dancer1_idx
                          (zero_series number_of_sensors (empty_dancer number_of_sensors)))
       [0..<number_of_dancers]"

text \<open>
  The part of a \<open>Sensors\<close> object that \<open>send_data\<close> works on: \<open>self.dancers\<close>, and a
  ghost trace \<open>appended\<close> that records every \<open>.append(val)\<close> \<open>send_data\<close> executes on a
  sample list, as (dancer index, sensor key, label) and the value.  The trace is not
  read by the code; it tells ingested samples from the zeros of the initial state.
\<close>

type_synonym path = "nat \<times> string \<times> string"

record telemetry =
  store :: "dancer list"
  appended :: "(path \<times> real) list"

definition Sensors_init :: telemetry where
  "Sensors_init = \<lparr> store = dancers 3 3, appended = [] \<rparr>"

text \<open>\<open>self.dancers[d_idx][sensor_key][label]\<close> as the list \<open>send_data\<close> appends to.\<close>

definition series_at :: "dancer list \<Rightarrow> path \<Rightarrow> py_error + real list" where
  "series_at st p =
     (case p of (d_idx, sensor_key, label) \<Rightarrow>
        if length st \<le> d_idx then Inl IndexError
        else (case map_of (st ! d_idx) sensor_key of
                None \<Rightarrow> Inl KeyError
              | Some sl \<Rightarrow>
                  (case map_of sl label of
                     None \<Rightarrow> Inl KeyError
                   | Some (CorrMap c) \<Rightarrow> Inl AttributeError
                   | Some (Series xs) \<Rightarrow> Inr xs)))"

definition put_series :: "dancer list \<Rightarrow> path \<Rightarrow> real list \<Rightarrow> dancer list" where
  "put_series st p xs =
     (case p of (d_idx, sensor_key, label) \<Rightarrow>
        st[d_idx := AList.map_entry sensor_key (AList.update label (Series xs)) (st ! d_idx)])"

text \<open>\<open>....append(val)\<close>\<close>

definition append_val :: "path \<Rightarrow> real \<Rightarrow> telemetry \<Rightarrow> py_error option \<times> telemetry" where
  "append_val p val t =
     (case series_at (store t) p of
        Inl e \<Rightarrow> (Some e, t)
      | Inr xs \<Rightarrow> (None, t\<lparr>store := put_series (store t) p (xs @ [val]),
                            appended := appended t @ [(p, val)]\<rparr>))"

text \<open>\<open>cutoff = len(...) - 500\<close>; \<open>if cutoff > 0: del ...[0]\<close>: one element is deleted.\<close>

definition trim :: "real list \<Rightarrow> real list" where
  "trim xs = (if int (length xs) - 500 > 0 then tl xs else xs)"

definition cutoff :: "path \<Rightarrow> telemetry \<Rightarrow> py_error option \<times> telemetry" where
  "cutoff p t =
     (case series_at (store t) p of
        Inl e \<Rightarrow> (Some e, t)
      | Inr xs \<Rightarrow> (None, t\<lparr>store := put_series (store t) p (trim xs)\<rparr>))"

text \<open>Sequencing of statements: an exception ends the call and keeps the state reached.\<close>

definition and_then :: "py_error option \<times> telemetry \<Rightarrow> (telemetry \<Rightarrow> py_error option \<times> telemetry)
                          \<Rightarrow> py_error option \<times> telemetry" where
  "and_then r f = (case r of (None, t) \<Rightarrow> f t | (Some e, t) \<Rightarrow> (Some e, t))"

text \<open>\<open>value[i]\<close> on a Python list, for \<open>i \<ge> 0\<close>.\<close>

definition item :: "real list \<Rightarrow> nat \<Rightarrow> py_error + real" where
  "item xs i = (if i < length xs then Inr (xs ! i) else Inl IndexError)"

definition append_item :: "path \<Rightarrow> real list \<Rightarrow> nat \<Rightarrow> telemetry \<Rightarrow> py_error option \<times> telemetry" where
  "append_item p xs i t =
     (case series_at (store t) p of
        Inl e \<Rightarrow> (Some e, t)
      | Inr _ \<Rightarrow> (case item xs i of Inl e \<Rightarrow> (Some e, t) | Inr val \<Rightarrow> append_val p val t))"

definition axes :: "string list" where
  "axes = [''x'', ''y'', ''z'']"

text \<open>The loop of the \<open>acc\<close>/\<open>gyr\<close>/\<open>mag\<close> branch: \<open>self.axes[i]\<close> raises beyond three values.\<close>

fun send_axes :: "nat \<Rightarrow> string \<Rightarrow> string \<Rightarrow> nat \<Rightarrow> real list \<Rightarrow> telemetry
                    \<Rightarrow> py_error option \<times> telemetry" where
  "send_axes d_idx sensor_key data_type i [] t = (None, t)"
| "send_axes d_idx sensor_key data_type i (val # rest) t =
     (if length axes \<le> i then (Some IndexError, t)
      else
        let data_label = data_type @ ''_'' @ axes ! i in
        and_then (append_val (d_idx, sensor_key, data_label) val t) (\<lambda>t.
        and_then (cutoff (d_idx, sensor_key, data_label) t)
          (send_axes d_idx sensor_key data_type (Suc i) rest)))"

text \<open>
  \<open>send_data\<close>.  The dashboard calls (\<open>dpg.configure_item\<close>) are not modelled.  In the
  \<open>tot_a\<close> branch the two final comparisons are between a list and \<open>0\<close> or \<open>1\<close>, which
  are both false, so neither guarded call runs.  Any other \<open>data_type\<close> falls through
  all branches.
\<close>

definition send_data :: "string \<Rightarrow> string \<Rightarrow> real list \<Rightarrow> telemetry \<Rightarrow> py_error option \<times> telemetry" where
  "send_data sensor_id data_type value t =
     (case map_of locations sensor_id of
        None \<Rightarrow> (Some KeyError, t)
      | Some (pos, dancer_no, s_idx) \<Rightarrow>
          let d_idx = dancer_no - 1;
              sensor_key = snsr s_idx
          in
          if data_type \<in> set [''acc'', ''gyr'', ''mag'']
          then send_axes d_idx sensor_key data_type 0 value t
          else if data_type = ''ori''
          then
            and_then (append_item (d_idx, sensor_key, data_type @ ''_p'') value 0 t) (\<lambda>t.
            and_then (append_item (d_idx, sensor_key, data_type @ ''_r'') value 1 t) (\<lambda>t.
            and_then (append_item (d_idx, sensor_key, data_type @ ''_y'') value 2 t) (\<lambda>t.
            and_then (cutoff (d_idx, sensor_key, data_type @ ''_p'') t) (\<lambda>t.
            and_then (cutoff (d_idx, sensor_key, data_type @ ''_r'') t) (\<lambda>t.
            cutoff (d_idx, sensor_key, data_type @ ''_y'') t)))))
          else if data_type = ''rot''
          then
            and_then (append_item (d_idx, sensor_key, data_type) value 0 t) (\<lambda>t.
            cutoff (d_idx, sensor_key, data_type) t)
          else if data_type = ''tot_a''
          then
            and_then (append_item (d_idx, sensor_key, data_type) value 0 t) (\<lambda>t.
            and_then (append_item (d_idx, sensor_key, ''b_'' @ data_type) value 1 t) (\<lambda>t.
            and_then (cutoff (d_idx, sensor_key, data_type) t) (\<lambda>t.
            cutoff (d_idx, sensor_key, ''b_'' @ data_type) t)))
          else (None, t))"

text \<open>A sequence of \<open>send_data\<close> calls; the first exception ends it.\<close>

fun send_all :: "(string \<times> string \<times> real list) list \<Rightarrow> telemetry \<Rightarrow> py_error option \<times> telemetry" where
  "send_all [] t = (None, t)"
| "send_all ((sensor_id, data_type, value) # calls) t =
     and_then (send_data sensor_id data_type value t) (send_all calls)"



section \<open>SpectralExtractor: \<open>calculate_fft\<close> and \<open>calculate_mfcc\<close>\<close>

text \<open>\<open>sub in s\<close> on Python strings.\<close>

fun substring_in :: "string \<Rightarrow> string \<Rightarrow> bool" where
  "substring_in sub [] = (sub = [])"
| "substring_in sub (c # cs) = (take (length sub) (c # cs) = sub \<or> substring_in sub cs)"

text \<open>The labels every analytics loop passes over with \<open>continue\<close>.\<close>

definition skipped :: "string \<Rightarrow> bool" where
  "skipped label \<longleftrightarrow>
     label = ''tot_a'' \<or> label = ''b_tot_a'' \<or> label = ''rot'' \<or> substring_in ''correlation'' label"

text \<open>\<open>len(...)\<close> of a dictionary value: the length of a list, the number of keys of a dictionary.\<close>

definition entry_len :: "entry \<Rightarrow> nat" where
  "entry_len e = (case e of Series xs \<Rightarrow> length xs | CorrMap c \<Rightarrow> length c)"

text \<open>\<open>xs[lenVec - 32:lenVec]\<close> where \<open>lenVec = len(xs)\<close> is at least 32.\<close>

definition window :: "real list \<Rightarrow> real list" where
  "window xs = drop (length xs - 32) xs"

text \<open>
  The transform applied to the window before the spectral analysis: \<open>cos(2 v)\<close> for an
  orientation label, \<open>cos(2 \<pi> (1 + v))\<close> for a magnetometer label, the window itself
  otherwise.
\<close>

definition periodic :: "string \<Rightarrow> real list \<Rightarrow> real list" where
  "periodic label w =
     (if substring_in ''ori'' label then map (\<lambda>v. cos (2 * v)) w
      else if substring_in ''mag'' label then map (\<lambda>v. cos (2 * pi * (1 + v))) w
      else w)"

text \<open>
  Modelled from the spec: \<open>numpy.fft.rfft\<close> is library code.  It is the real-input
  discrete Fourier transform the spec names: for an input of length \<open>n\<close> the coefficients
  \<open>k = 0, \<dots>, n div 2\<close> of \<open>\<Sum>j<n. x j * exp (- 2 \<pi> \<i> j k / n)\<close>.
\<close>

definition rfft :: "real list \<Rightarrow> complex list" where
  "rfft xs =
     map (\<lambda>k. \<Sum>j<length xs. complex_of_real (xs ! j) * cis (- 2 * pi * real j * real k / real (length xs)))
       [0..<length xs div 2 + 1]"

text \<open>\<open>np.abs(fft)\<close> of the transformed window.\<close>

definition fft_feature :: "string \<Rightarrow> real list \<Rightarrow> real list" where
  "fft_feature label xs = map cmod (rfft (periodic label (window xs)))"

text \<open>
  The argument \<open>y\<close> the three branches of \<open>calculate_mfcc\<close> pass to \<open>mfcc\<close>: the \<open>ori\<close> and
  \<open>mag\<close> branches pass \<open>np.cos(\<dots> np.asarray(\<dots>) \<dots>)\<close>, a \<open>numpy\<close> array; the \<open>else\<close> branch
  passes the slice of the Python list as it is.
\<close>

datatype audio = PyList "real list" | NdArray "real list"

definition mfcc_input :: "string \<Rightarrow> real list \<Rightarrow> audio" where
  "mfcc_input label w =
     (if substring_in ''ori'' label then NdArray (map (\<lambda>v. cos (2 * v)) w)
      else if substring_in ''mag'' label then NdArray (map (\<lambda>v. cos (2 * pi * (1 + v))) w)
      else PyList w)"

text \<open>
  \<open>mfcc(y = \<dots>, sr = fs, n_fft = 32, n_mfcc = 13)\<close>.  \<open>librosa\<close>'s \<open>mfcc\<close> is library code.  Its
  input check (\<open>librosa.util.valid_audio\<close>) raises \<open>ParameterError\<close> unless \<open>y\<close> is a
  \<open>numpy.ndarray\<close>; what it computes on an array is a parameter here, with the arguments
  \<open>y\<close>, \<open>sr\<close>, \<open>n_fft\<close> and \<open>n_mfcc\<close>, and its result is a two-dimensional array, a list of
  rows.
\<close>

definition librosa_mfcc :: "(real list \<Rightarrow> real \<Rightarrow> nat \<Rightarrow> nat \<Rightarrow> real list list) \<Rightarrow> audio \<Rightarrow> real
                              \<Rightarrow> nat \<Rightarrow> nat \<Rightarrow> py_error + real list list" where
  "librosa_mfcc mfcc y sr n_fft n_mfcc =
     (case y of
        PyList xs \<Rightarrow> Inl ParameterError
      | NdArray xs \<Rightarrow> Inr (mfcc xs sr n_fft n_mfcc))"

text \<open>\<open>cc = mfcc(\<dots>)\<close> followed by \<open>np.abs(cc)\<close>.\<close>

definition mfcc_feature :: "(real list \<Rightarrow> real \<Rightarrow> nat \<Rightarrow> nat \<Rightarrow> real list list) \<Rightarrow> real
                              \<Rightarrow> string \<Rightarrow> real list \<Rightarrow> py_error + real list list" where
  "mfcc_feature mfcc fs label xs =
     (case librosa_mfcc mfcc (mfcc_input label (window xs)) fs 32 13 of
        Inl e \<Rightarrow> Inl e
      | Inr cc \<Rightarrow> Inr (map (map abs) cc))"

text \<open>
  The loop nest \<open>calculate_fft\<close> and \<open>calculate_mfcc\<close> share, with the feature computed
  for a channel as parameter; an exception raised while a feature is computed ends the
  loops.  \<open>for label in dancer[sensor1]\<close> runs over the keys in insertion order.  Slicing
  a dictionary raises; this can only happen for a dictionary of 32 or more keys stored
  under a label that is not skipped.
\<close>

fun feature_labels :: "(string \<Rightarrow> real list \<Rightarrow> py_error + 'f) \<Rightarrow> slot \<Rightarrow> string list \<Rightarrow> 'f list
                         \<Rightarrow> py_error + 'f list" where
  "feature_labels feature sl [] out = Inr out"
| "feature_labels feature sl (label # rest) out =
     (if skipped label then feature_labels feature sl rest out
      else
        (case map_of sl label of
           None \<Rightarrow> Inl KeyError
         | Some e \<Rightarrow>
             if entry_len e < 32 then feature_labels feature sl rest out
             else
               (case e of
                  CorrMap c \<Rightarrow> Inl TypeError
                | Series xs \<Rightarrow>
                    (case feature label xs of
                       Inl err \<Rightarrow> Inl err
                     | Inr v \<Rightarrow> feature_labels feature sl rest (out @ [v])))))"

fun feature_sensors :: "(string \<Rightarrow> real list \<Rightarrow> py_error + 'f) \<Rightarrow> dancer \<Rightarrow> nat list \<Rightarrow> 'f list \<Rightarrow> py_error + 'f list" where
  "feature_sensors feature d [] out = Inr out"
| "feature_sensors feature d (i # rest) out =
     (case map_of d (snsr i) of
        None \<Rightarrow> Inl KeyError
      | Some sl \<Rightarrow>
          (case feature_labels feature sl (map fst sl) out of
             Inl e \<Rightarrow> Inl e
           | Inr out' \<Rightarrow> feature_sensors feature d rest out'))"

fun feature_dancers :: "(string \<Rightarrow> real list \<Rightarrow> py_error + 'f) \<Rightarrow> nat \<Rightarrow> dancer list \<Rightarrow> 'f list \<Rightarrow> py_error + 'f list" where
  "feature_dancers feature nSensors [] out = Inr out"
| "feature_dancers feature nSensors (d # rest) out =
     (case feature_sensors feature d [1..<nSensors + 1] out of
        Inl e \<Rightarrow> Inl e
      | Inr out' \<Rightarrow> feature_dancers feature nSensors rest out')"

text \<open>
  Both functions only read \<open>self.dancers\<close>; the store they leave is the store they
  were called on, returned as second component.
\<close>

definition calculate_fft :: "nat \<Rightarrow> dancer list \<Rightarrow> (py_error + real list list) \<times> dancer list" where
  "calculate_fft nSensors st = (feature_dancers (\<lambda>label xs. Inr (fft_feature label xs)) nSensors st [], st)"

definition calculate_mfcc :: "(real list \<Rightarrow> real \<Rightarrow> nat \<Rightarrow> nat \<Rightarrow> real list list) \<Rightarrow> real \<Rightarrow> nat \<Rightarrow> dancer list
                                \<Rightarrow> (py_error + real list list list) \<times> dancer list" where
  "calculate_mfcc mfcc fs nSensors st = (feature_dancers (mfcc_feature mfcc fs) nSensors st [], st)"

section \<open>CorrelationEngine: \<open>calculate_correlation_self\<close> and \<open>calculate_correlation_others\<close>\<close>

text \<open>
  Modelled from the spec: \<open>numpy.corrcoef\<close> is library code.  The value read from it,
  \<open>correlation[1][0]\<close>, is the Pearson correlation coefficient of the two windows, and
  is not a number when a window has no variance.
\<close>

datatype npfloat = Finite real | NaN

definition mean :: "real list \<Rightarrow> real" where
  "mean xs = sum_list xs / real (length xs)"

definition corrcoef :: "real list \<Rightarrow> real list \<Rightarrow> npfloat" where
  "corrcoef xs ys =
     (let dx = map (\<lambda>x. x - mean xs) xs;
          dy = map (\<lambda>y. y - mean ys) ys;
          c = sum_list (map2 (*) dx dy);
          vx = sum_list (map (\<lambda>a. a * a) dx);
          vy = sum_list (map (\<lambda>a. a * a) dy)
      in if vx = 0 \<or> vy = 0 then NaN else Finite (c / (sqrt vx * sqrt vy)))"

text \<open>\<open>corrVal = 0\<close>; \<open>if not np.isnan(correlation[1][0]): corrVal = correlation[1][0]\<close>\<close>

definition corrVal :: "npfloat \<Rightarrow> real" where
  "corrVal correlation = (case correlation of NaN \<Rightarrow> 0 | Finite r \<Rightarrow> r)"

text \<open>\<open>dancer[sensor][label]\<close>\<close>

definition entry_at :: "dancer \<Rightarrow> string \<Rightarrow> string \<Rightarrow> py_error + entry" where
  "entry_at d sensor label =
     (case map_of d sensor of
        None \<Rightarrow> Inl KeyError
      | Some sl \<Rightarrow> (case map_of sl label of None \<Rightarrow> Inl KeyError | Some e \<Rightarrow> Inr e))"

text \<open>
  \<open>dancer[sensor1][f'correlation_{label}'][key].append(corrVal)\<close> followed by the
  \<open>cutoff\<close> statements on the same list.  Indexing a list with a string raises
  \<open>TypeError\<close>.
\<close>

definition corr_append :: "dancer \<Rightarrow> string \<Rightarrow> string \<Rightarrow> string \<Rightarrow> real \<Rightarrow> py_error + dancer" where
  "corr_append d sensor1 clabel key v =
     (case map_of d sensor1 of
        None \<Rightarrow> Inl KeyError
      | Some sl \<Rightarrow>
          (case map_of sl clabel of
             None \<Rightarrow> Inl KeyError
           | Some (Series xs) \<Rightarrow> Inl TypeError
           | Some (CorrMap c) \<Rightarrow>
               (case map_of c key of
                  None \<Rightarrow> Inl KeyError
                | Some xs \<Rightarrow>
                    Inr (AList.update sensor1
                           (AList.update clabel (CorrMap (AList.update key (trim (xs @ [v])) c)) sl) d))))"

text \<open>
  The label loop of \<open>calculate_correlation_self\<close> for the sensor pair
  \<open>sensor1\<close>, \<open>sensor2\<close> of one dancer.
\<close>

fun self_labels :: "string \<Rightarrow> string \<Rightarrow> string list \<Rightarrow> dancer \<Rightarrow> (string \<times> real) list
                      \<Rightarrow> (py_error + (string \<times> real) list) \<times> dancer" where
  "self_labels sensor1 sensor2 [] d out = (Inr out, d)"
| "self_labels sensor1 sensor2 (label # rest) d out =
     (if skipped label then self_labels sensor1 sensor2 rest d out
      else
        (case entry_at d sensor1 label of
           Inl e \<Rightarrow> (Inl e, d)
         | Inr e1 \<Rightarrow>
             (case entry_at d sensor2 label of
                Inl e \<Rightarrow> (Inl e, d)
              | Inr e2 \<Rightarrow>
                  if entry_len e1 < 32 \<or> entry_len e2 < 32
                  then self_labels sensor1 sensor2 rest d out
                  else
                    (case (e1, e2) of
                       (Series xs, Series ys) \<Rightarrow>
                         let v = corrVal (corrcoef (window xs) (window ys)) in
                         (case corr_append d sensor1 (correlation_label label) sensor2 v of
                            Inl e \<Rightarrow> (Inl e, d)
                          | Inr d' \<Rightarrow> self_labels sensor1 sensor2 rest d' (out @ [(label, v)]))
                     | _ \<Rightarrow> (Inl TypeError, d)))))"

text \<open>\<open>for i in range(1, nSensors): for j in range(i + 1, nSensors + 1)\<close>\<close>

definition sensor_pairs :: "nat \<Rightarrow> (nat \<times> nat) list" where
  "sensor_pairs nSensors = concat (map (\<lambda>i. map (\<lambda>j. (i, j)) [i + 1..<nSensors + 1]) [1..<nSensors])"

fun self_pairs :: "(nat \<times> nat) list \<Rightarrow> dancer \<Rightarrow> (string \<times> real) list
                     \<Rightarrow> (py_error + (string \<times> real) list) \<times> dancer" where
  "self_pairs [] d out = (Inr out, d)"
| "self_pairs ((i, j) # rest) d out =
     (case map_of d (snsr i) of
        None \<Rightarrow> (Inl KeyError, d)
      | Some sl \<Rightarrow>
          (case self_labels (snsr i) (snsr j) (map fst sl) d out of
             (Inl e, d') \<Rightarrow> (Inl e, d')
           | (Inr out', d') \<Rightarrow> self_pairs rest d' out'))"

fun self_dancers :: "nat \<Rightarrow> dancer list \<Rightarrow> (string \<times> real) list
                       \<Rightarrow> (py_error + (string \<times> real) list) \<times> dancer list" where
  "self_dancers nSensors [] out = (Inr out, [])"
| "self_dancers nSensors (d # rest) out =
     (case self_pairs (sensor_pairs nSensors) d out of
        (Inl e, d') \<Rightarrow> (Inl e, d' # rest)
      | (Inr out', d') \<Rightarrow>
          (case self_dancers nSensors rest out' of (r, rest') \<Rightarrow> (r, d' # rest')))"

definition calculate_correlation_self :: "nat \<Rightarrow> dancer list
                                            \<Rightarrow> (py_error + (string \<times> real) list) \<times> dancer list" where
  "calculate_correlation_self nSensors st = self_dancers nSensors st []"

definition correlation_others_combos :: "(nat \<times> nat) list" where
  "correlation_others_combos = [(12, 22)]"

text \<open>\<open>round(label / 10)\<close>: Python rounds a half to the even neighbour.\<close>

definition round_tenth :: "nat \<Rightarrow> nat" where
  "round_tenth n =
     (if n mod 10 < 5 then n div 10
      else if 5 < n mod 10 then n div 10 + 1
      else if even (n div 10) then n div 10 else n div 10 + 1)"

text \<open>
  The position \<open>self.dancers[idx - 1]\<close> denotes: for \<open>idx = 0\<close> the index \<open>-1\<close> is the last
  element.
\<close>

definition dancer_index :: "nat \<Rightarrow> nat \<Rightarrow> py_error + nat" where
  "dancer_index len idx =
     (if idx = 0 then (if len = 0 then Inl IndexError else Inr (len - 1))
      else if idx - 1 < len then Inr (idx - 1) else Inl IndexError)"

text \<open>
  The label loop of \<open>calculate_correlation_others\<close>.  \<open>dancer1\<close> is the element \<open>k1\<close> and
  \<open>dancer2\<close> the element \<open>k2\<close> of the store, possibly the same object, so both are read
  from the current store.  The coefficient is appended under the key
  \<open>f'dancer_{dancer2_idx + 1}'\<close>.
\<close>

fun others_labels :: "nat \<Rightarrow> string \<Rightarrow> nat \<Rightarrow> string \<Rightarrow> nat \<Rightarrow> string list \<Rightarrow> dancer list
                        \<Rightarrow> (string \<times> real) list \<Rightarrow> (py_error + (string \<times> real) list) \<times> dancer list" where
  "others_labels k1 sensor1 k2 sensor2 dancer2_idx [] st out = (Inr out, st)"
| "others_labels k1 sensor1 k2 sensor2 dancer2_idx (label # rest) st out =
     (if skipped label then others_labels k1 sensor1 k2 sensor2 dancer2_idx rest st out
      else
        (case entry_at (st ! k1) sensor1 label of
           Inl e \<Rightarrow> (Inl e, st)
         | Inr e1 \<Rightarrow>
             (case entry_at (st ! k2) sensor2 label of
                Inl e \<Rightarrow> (Inl e, st)
              | Inr e2 \<Rightarrow>
                  if entry_len e1 < 32 \<or> entry_len e2 < 32
                  then others_labels k1 sensor1 k2 sensor2 dancer2_idx rest st out
                  else
                    (case (e1, e2) of
                       (Series xs, Series ys) \<Rightarrow>
                         let v = corrVal (corrcoef (window xs) (window ys)) in
                         (case corr_append (st ! k1) sensor1 (correlation_label label)
                                 (dancer_key (dancer2_idx + 1)) v of
                            Inl e \<Rightarrow> (Inl e, st)
                          | Inr d' \<Rightarrow>
                              others_labels k1 sensor1 k2 sensor2 dancer2_idx rest (st[k1 := d'])
                                (out @ [(label, v)]))
                     | _ \<Rightarrow> (Inl TypeError, st)))))"

fun others_combos :: "(nat \<times> nat) list \<Rightarrow> dancer list \<Rightarrow> (string \<times> real) list
                        \<Rightarrow> (py_error + (string \<times> real) list) \<times> dancer list" where
  "others_combos [] st out = (Inr out, st)"
| "others_combos ((sensor1_label, sensor2_label) # rest) st out =
     (if sensor1_label = sensor2_label then others_combos rest st out
      else
        (case dancer_index (length st) (round_tenth sensor1_label) of
           Inl e \<Rightarrow> (Inl e, st)
         | Inr k1 \<Rightarrow>
             (case dancer_index (length st) (round_tenth sensor2_label) of
                Inl e \<Rightarrow> (Inl e, st)
              | Inr k2 \<Rightarrow>
                  (case map_of (st ! k1) (snsr (sensor1_label mod 10)) of
                     None \<Rightarrow> (Inl KeyError, st)
                   | Some sl \<Rightarrow>
                       (case others_labels k1 (snsr (sensor1_label mod 10)) k2 (snsr (sensor2_label mod 10))
                               (round_tenth sensor2_label) (map fst sl) st out of
                          (Inl e, st') \<Rightarrow> (Inl e, st')
                        | (Inr out', st') \<Rightarrow> others_combos rest st' out')))))"

definition calculate_correlation_others :: "dancer list \<Rightarrow> (py_error + (string \<times> real) list) \<times> dancer list" where
  "calculate_correlation_others st = others_combos correlation_others_combos st []"

text \<open>\<open>dancer[sensor][clabel][key]\<close> as a stored correlation series.\<close>

definition corr_series_at :: "dancer list \<Rightarrow> nat \<Rightarrow> string \<Rightarrow> string \<Rightarrow> string \<Rightarrow> real list option" where
  "corr_series_at st k sensor clabel key =
     (if length st \<le> k then None
      else (case map_of (st ! k) sensor of
              None \<Rightarrow> None
            | Some sl \<Rightarrow>
                (case map_of sl clabel of
                   Some (CorrMap c) \<Rightarrow> map_of c key
                 | _ \<Rightarrow> None)))"

section \<open>IngestionDispatcher: \<open>XdaDevice.recording_loop\<close>\<close>

text \<open>
  What the loop reads from a data packet: whether it carries a device id and the id,
  the calibrated data when present (free acceleration, gyroscope, magnetic field), the
  orientation when present (Euler angles \<open>x\<close>, \<open>y\<close>, \<open>z\<close> in degrees and the quaternion),
  and the value of \<open>time()\<close> while the packet is handled.
\<close>

type_synonym vec3 = "real \<times> real \<times> real"

record packet =
  containsStoredDeviceId :: bool
  deviceId :: string
  calibrated :: "(vec3 \<times> vec3 \<times> vec3) option"
  orientation :: "(vec3 \<times> real \<times> real \<times> real \<times> real) option"
  arrival :: real

text \<open>
  The state of the loop: the \<open>Sensors\<close> object (sample store with its trace, scaling
  bounds), the local variables \<open>timer\<close>, \<open>sensor_id\<close>, \<open>dancer\<close> and \<open>sensor\<close> (the last
  three unbound until a packet with a device id arrived), and the OSC messages sent so
  far as address and payload.
\<close>

record recorder =
  sensors_data :: telemetry
  minmax_of :: "minmax_entry list"
  timer_var :: real
  sensor_id_var :: "string option"
  dancer_var :: "nat option"
  sensor_var :: "nat option"
  osc_sent :: "(string \<times> real list) list"

text \<open>Python's \<open>round\<close> to an integer (a half goes to the even neighbour) and to five decimals.\<close>

definition py_round :: "real \<Rightarrow> int" where
  "py_round v =
     (if v - of_int \<lfloor>v\<rfloor> < 1 / 2 then \<lfloor>v\<rfloor>
      else if 1 / 2 < v - of_int \<lfloor>v\<rfloor> then \<lfloor>v\<rfloor> + 1
      else if even \<lfloor>v\<rfloor> then \<lfloor>v\<rfloor> else \<lfloor>v\<rfloor> + 1)"

definition round5 :: "real \<Rightarrow> real" where
  "round5 v = of_int (py_round (v * 100000)) / 100000"

text \<open>\<open>self.sensors.send_data(sensor_id, data_type, value)\<close> from inside the loop.\<close>

definition send :: "string \<Rightarrow> string \<Rightarrow> real list \<Rightarrow> recorder \<Rightarrow> py_error option \<times> recorder" where
  "send sid data_type value r =
     (case send_data sid data_type value (sensors_data r) of
        (e, t) \<Rightarrow> (e, r\<lparr>sensors_data := t\<rparr>))"

text \<open>
  The block \<open>if packet.containsCalibratedData()\<close>.  It returns what it appends to
  \<open>osc_msg\<close>.  The hit flag compares the elapsed time with \<open>self.acc_threshold\<close>, as the
  source does.
\<close>

definition calibrated_data :: "real \<Rightarrow> string \<Rightarrow> real \<Rightarrow> vec3 \<times> vec3 \<times> vec3 \<Rightarrow> recorder
                                 \<Rightarrow> (py_error + real list) \<times> recorder" where
  "calibrated_data acc_threshold sid now cal r =
     (case cal of ((ax, ay, az), (gx, gy, gz), (mx, my, mz)) \<Rightarrow>
        let acc = [ax / 100, ay / 100, az / 100];
            acc_value = map round5 acc;
            tot = sqrt ((acc ! 0)\<^sup>2 + (acc ! 1)\<^sup>2 + (acc ! 2)\<^sup>2);
            hit = (acc_threshold < tot \<and> acc_threshold < now - timer_var r);
            tot_acc = [tot, if hit then 1 else 0];
            r1 = (if hit then r\<lparr>timer_var := now\<rparr> else r)
        in
        (case send sid ''acc'' acc_value r1 of
           (Some e, r2) \<Rightarrow> (Inl e, r2)
         | (None, r2) \<Rightarrow>
        (case send sid ''tot_a'' tot_acc r2 of
           (Some e, r3) \<Rightarrow> (Inl e, r3)
         | (None, r3) \<Rightarrow>
        (case scale_data (minmax_of r3) sid ''rot'' [sqrt (gx\<^sup>2 + gy\<^sup>2 + gz\<^sup>2)] of
           (Inl e, mm) \<Rightarrow> (Inl e, r3\<lparr>minmax_of := mm\<rparr>)
         | (Inr rot_value, mm) \<Rightarrow>
        (case rot_value of
           [] \<Rightarrow> (Inl IndexError, r3\<lparr>minmax_of := mm\<rparr>)
         | rot0 # _ \<Rightarrow>
        (case send sid ''gyr'' (map round5 [gx, gy, gz]) (r3\<lparr>minmax_of := mm\<rparr>) of
           (Some e, r4) \<Rightarrow> (Inl e, r4)
         | (None, r4) \<Rightarrow>
        (case send sid ''rot'' rot_value r4 of
           (Some e, r5) \<Rightarrow> (Inl e, r5)
         | (None, r5) \<Rightarrow>
        (case send sid ''mag'' [mx, my, mz] r5 of
           (Some e, r6) \<Rightarrow> (Inl e, r6)
         | (None, r6) \<Rightarrow>
             (Inr (acc_value @ [round5 tot, if hit then 1 else 0]
                   @ map round5 [gx, gy, gz] @ [round5 rot0]
                   @ map round5 [mx, my, mz]), r6)))))))))"

text \<open>
  \<open>euler_value\<close>, the list sent to the store, and the three Euler components appended
  to the outbound message, \<open>euler_value[i] + np.pi\<close>.
\<close>

definition euler_value :: "vec3 \<Rightarrow> real list" where
  "euler_value euler =
     (case euler of (x, y, z) \<Rightarrow> [pi * x / 180 + 1, pi * y / 180, pi * z / 180 + 1])"

definition euler_osc :: "vec3 \<Rightarrow> real list" where
  "euler_osc euler =
     [euler_value euler ! 0 + pi, euler_value euler ! 1 + pi, euler_value euler ! 2 + pi]"

text \<open>The block \<open>if packet.containsOrientation()\<close>, returning what it appends to \<open>osc_msg\<close>.\<close>

definition orientation_data :: "string \<Rightarrow> vec3 \<times> real \<times> real \<times> real \<times> real \<Rightarrow> recorder
                                  \<Rightarrow> (py_error + real list) \<times> recorder" where
  "orientation_data sid ori r =
     (case ori of (euler, (q0, q1, q2, q3)) \<Rightarrow>
        (case send sid ''ori'' (euler_value euler) r of
           (Some e, r1) \<Rightarrow> (Inl e, r1)
         | (None, r1) \<Rightarrow> (Inr (euler_osc euler @ [q0, - q1, q3, q2]), r1)))"

text \<open>
  One pass of the loop body for an available packet.  A device id missing from
  \<open>locations\<close> raises \<open>KeyError\<close> in the lookup of the dancer number, after \<open>sensor_id\<close>
  has been assigned.  No statement of the body that is modelled here stands in a
  \<open>try\<close>; the dashboard, the log file and the OSC transport are not modelled beyond the
  messages handed to \<open>osc_send\<close>.
\<close>

definition process_packet :: "real \<Rightarrow> packet \<Rightarrow> recorder \<Rightarrow> py_error option \<times> recorder" where
  "process_packet acc_threshold pk r =
     (case (if containsStoredDeviceId pk
            then (case map_of locations (deviceId pk) of
                    None \<Rightarrow> (Inl KeyError, r\<lparr>sensor_id_var := Some (deviceId pk)\<rparr>)
                  | Some (pos, d, s) \<Rightarrow>
                      (Inr [real (d * 10 + s)],
                       r\<lparr>sensor_id_var := Some (deviceId pk), dancer_var := Some d, sensor_var := Some s\<rparr>))
            else (Inr [], r)) of
        (Inl e, r1) \<Rightarrow> (Some e, r1)
      | (Inr osc0, r1) \<Rightarrow>
     (case (case calibrated pk of
              None \<Rightarrow> (Inr osc0, r1)
            | Some cal \<Rightarrow>
                (case sensor_id_var r1 of
                   None \<Rightarrow> (Inl NameError, r1)
                 | Some sid \<Rightarrow>
                     (case calibrated_data acc_threshold sid (arrival pk) cal r1 of
                        (Inl e, r2) \<Rightarrow> (Inl e, r2)
                      | (Inr osc, r2) \<Rightarrow> (Inr (osc0 @ osc), r2)))) of
        (Inl e, r2) \<Rightarrow> (Some e, r2)
      | (Inr osc1, r2) \<Rightarrow>
     (case (case orientation pk of
              None \<Rightarrow> (Inr osc1, r2)
            | Some ori \<Rightarrow>
                (case sensor_id_var r2 of
                   None \<Rightarrow> (Inl NameError, r2)
                 | Some sid \<Rightarrow>
                     (case orientation_data sid ori r2 of
                        (Inl e, r3) \<Rightarrow> (Inl e, r3)
                      | (Inr osc, r3) \<Rightarrow> (Inr (osc1 @ osc), r3)))) of
        (Inl e, r3) \<Rightarrow> (Some e, r3)
      | (Inr osc2, r3) \<Rightarrow>
     (case (dancer_var r3, sensor_var r3) of
        (Some d, Some s) \<Rightarrow>
          let address = ''/xsens'' @ str_nat d @ str_nat s;
              r4 = r3\<lparr>osc_sent := osc_sent r3 @ [(address, osc2)]\<rparr>
          in
          if s = 1 \<and> d = 1
          then
            (case calculate_correlation_others (store (sensors_data r4)) of
               (Inl e, st) \<Rightarrow> (Some e, r4\<lparr>sensors_data := (sensors_data r4)\<lparr>store := st\<rparr>\<rparr>)
             | (Inr correlations, st) \<Rightarrow>
                 (None, r4\<lparr>sensors_data := (sensors_data r4)\<lparr>store := st\<rparr>,
                          osc_sent := osc_sent r4 @
                            [(address @ ''-correlation-others'', map (\<lambda>c. round5 (snd c)) correlations)]\<rparr>))
          else (None, r4)
      | _ \<Rightarrow> (Some NameError, r3)))))"

text \<open>
  \<open>recording_loop\<close> over the packets that become available while recording.  An
  exception leaves the \<open>while\<close> loop: the packets after it are not handled.
\<close>

fun recording_loop :: "real \<Rightarrow> packet list \<Rightarrow> recorder \<Rightarrow> py_error option \<times> recorder" where
  "recording_loop acc_threshold [] r = (None, r)"
| "recording_loop acc_threshold (pk # rest) r =
     (case process_packet acc_threshold pk r of
        (Some e, r') \<Rightarrow> (Some e, r')
      | (None, r') \<Rightarrow> recording_loop acc_threshold rest r')"

text \<open>The loop state when recording starts, for the given connected devices.\<close>

definition recorder_init :: "string list \<Rightarrow> recorder" where
  "recorder_init device_ids =
     \<lparr> sensors_data = Sensors_init, minmax_of = configured device_ids, timer_var = 0,
       sensor_id_var = None, dancer_var = None, sensor_var = None, osc_sent = [] \<rparr>"

section \<open>Example stores\<close>

text \<open>Small stores on which the analytics functions are run in the examples below.\<close>

definition two_sensors :: "dancer list" where
  "two_sensors =
     [[(''snsr_1'', [(''acc_x'', Series (replicate 32 1)),
                     (''correlation_acc_x'', CorrMap [(''snsr_2'', [])])]),
       (''snsr_2'', [(''acc_x'', Series (replicate 32 1))])]]"


definition two_sensors_after :: "dancer list" where
  "two_sensors_after =
     [[(''snsr_1'', [(''acc_x'', Series (replicate 32 1)),
                     (''correlation_acc_x'', CorrMap [(''snsr_2'', [0])])]),
       (''snsr_2'', [(''acc_x'', Series (replicate 32 1))])]]"


text \<open>
  A store whose second sensor holds 31 samples only, the labels of the twelve eligible
  channels of a sensor, and a stand-in for \<open>mfcc\<close> that returns \<open>n_mfcc\<close> rows.
\<close>

definition short_store :: "dancer list" where
  "short_store =
     [[(''snsr_1'', [(''acc_x'', Series (replicate 32 1)),
                     (''correlation_acc_x'', CorrMap [(''snsr_2'', [])])]),
       (''snsr_2'', [(''acc_x'', Series (replicate 31 1))])]]"

definition spectral_labels :: "string list" where
  "spectral_labels = [''ori_p'', ''ori_r'', ''ori_y'', ''acc_x'', ''acc_y'', ''acc_z'',
                      ''gyr_x'', ''gyr_y'', ''gyr_z'', ''mag_x'', ''mag_y'', ''mag_z'']"

definition mfcc_stub :: "real list \<Rightarrow> real \<Rightarrow> nat \<Rightarrow> nat \<Rightarrow> real list list" where
  "mfcc_stub y sr n_fft n_mfcc = replicate n_mfcc [0]"

section \<open>Auxiliary predicates of the proofs\<close>

definition widened :: "minmax_entry \<Rightarrow> minmax_entry \<Rightarrow> bool" where
  "widened s s' \<longleftrightarrow>
     ident s' = ident s \<and>
     (\<forall>dt xs. bounds s (dt @ ''_min'') = Some xs \<longrightarrow>
        (\<exists>xs'. bounds s' (dt @ ''_min'') = Some xs' \<and> length xs' = length xs \<and>
               (\<forall>i<length xs. xs' ! i \<le> xs ! i))) \<and>
     (\<forall>dt xs. bounds s (dt @ ''_max'') = Some xs \<longrightarrow>
        (\<exists>xs'. bounds s' (dt @ ''_max'') = Some xs' \<and> length xs' = length xs \<and>
               (\<forall>i<length xs. xs ! i \<le> xs' ! i)))"

definition apart :: "minmax_entry \<Rightarrow> bool" where
  "apart s \<longleftrightarrow>
     (\<forall>dt xs. bounds s (dt @ ''_min'') = Some xs \<longrightarrow> (\<forall>x\<in>set xs. x \<le> 0)) \<and>
     (\<forall>dt xs. bounds s (dt @ ''_max'') = Some xs \<longrightarrow> (\<forall>x\<in>set xs. 1 \<le> x))"


definition zero_slot :: "slot \<Rightarrow> bool" where
  "zero_slot sl \<longleftrightarrow> (\<forall>(l, e)\<in>set sl. \<forall>xs. e = Series xs \<longrightarrow> xs = zeros)"

definition zero_dancer :: "dancer \<Rightarrow> bool" where
  "zero_dancer d \<longleftrightarrow> (\<forall>(k, sl)\<in>set d. zero_slot sl)"

definition in_range :: "real \<Rightarrow> bool" where
  "in_range x \<longleftrightarrow> - 1 \<le> x \<and> x \<le> 1"

definition kept :: "(string \<times> string \<times> string) set \<Rightarrow> dancer \<Rightarrow> dancer \<Rightarrow> bool" where
  "kept A d d' \<longleftrightarrow>
     (\<forall>s l. series_at [d'] (0, s, l) = series_at [d] (0, s, l)) \<and>
     (\<forall>s cl key. (s, cl, key) \<notin> A \<longrightarrow> corr_series_at [d'] 0 s cl key = corr_series_at [d] 0 s cl key) \<and>
     (\<forall>s cl key xs'. corr_series_at [d'] 0 s cl key = Some xs' \<longrightarrow>
        (\<exists>xs. corr_series_at [d] 0 s cl key = Some xs \<and> (\<forall>x\<in>set xs'. x \<in> set xs \<or> in_range x))) \<and>
     (\<forall>s l. map_sum id entry_len (entry_at d' s l) = map_sum id entry_len (entry_at d s l))"

definition long :: "dancer \<Rightarrow> string \<Rightarrow> string \<Rightarrow> bool" where
  "long d s l \<longleftrightarrow> (\<exists>e. entry_at d s l = Inr e \<and> 32 \<le> entry_len e)"

definition kept_store :: "(nat \<times> string \<times> string \<times> string) set \<Rightarrow> dancer list \<Rightarrow> dancer list \<Rightarrow> bool" where
  "kept_store A st st' \<longleftrightarrow>
     length st' = length st \<and>
     (\<forall>k<length st. kept {(s, cl, key). (k, s, cl, key) \<in> A} (st ! k) (st' ! k))"

definition self_keys :: "(nat \<times> nat) list \<Rightarrow> dancer \<Rightarrow> (string \<times> string \<times> string) set" where
  "self_keys ps d = {(s, cl, key). \<exists>i j l. (i, j) \<in> set ps \<and> \<not> skipped l \<and>
                      long d (snsr i) l \<and> long d (snsr j) l \<and>
                      s = snsr i \<and> cl = correlation_label l \<and> key = snsr j}"

definition others_keys :: "dancer list \<Rightarrow> (nat \<times> nat) list \<Rightarrow> (nat \<times> string \<times> string \<times> string) set" where
  "others_keys st ps = {(k, s, cl, key). \<exists>l1 l2 k2 l. (l1, l2) \<in> set ps \<and> \<not> skipped l \<and>
       dancer_index (length st) (round_tenth l1) = Inr k \<and>
       dancer_index (length st) (round_tenth l2) = Inr k2 \<and>
       long (st ! k) (snsr (l1 mod 10)) l \<and> long (st ! k2) (snsr (l2 mod 10)) l \<and>
       s = snsr (l1 mod 10) \<and> cl = correlation_label l \<and> key = dancer_key (round_tenth l2 + 1)}"

text \<open>
  The shape of the store that \<open>dancers\<close> builds and \<open>send_data\<close> keeps: every dancer has
  every sensor key \<open>snsr_1\<close>, \<dots>, \<open>snsr_n\<close>, the labels of a sensor are distinct, and every
  label the spectral loops do not skip holds a list of samples.
\<close>

definition slot_ok :: "slot \<Rightarrow> bool" where
  "slot_ok sl \<longleftrightarrow> distinct (map fst sl) \<and> (\<forall>(l, e)\<in>set sl. (\<exists>xs. e = Series xs) \<or> skipped l)"

definition wf_store :: "nat \<Rightarrow> dancer list \<Rightarrow> bool" where
  "wf_store n st \<longleftrightarrow>
     (\<forall>d\<in>set st. \<forall>i. 1 \<le> i \<and> i \<le> n \<longrightarrow> (\<exists>sl. map_of d (snsr i) = Some sl \<and> slot_ok sl))"

definition slots_ok :: "dancer \<Rightarrow> bool" where
  "slots_ok d \<longleftrightarrow> (\<forall>(k, sl)\<in>set d. slot_ok sl)"

text \<open>
  The channels the spectral loops visit, in the order of the loop nest (dancers, then
  sensors \<open>1\<close>, \<dots>, \<open>nSensors\<close>, then the labels of the sensor in insertion order), and
  among them the eligible ones: label not skipped, a list of at least 32 samples.
\<close>

definition slot_items :: "dancer \<Rightarrow> nat \<Rightarrow> (string \<times> entry) list" where
  "slot_items d i = (case map_of d (snsr i) of None \<Rightarrow> [] | Some sl \<Rightarrow> sl)"

definition channels :: "nat \<Rightarrow> dancer list \<Rightarrow> (string \<times> entry) list" where
  "channels n st =
     concat (map (\<lambda>d. concat (map (\<lambda>i. case map_of d (snsr i) of None \<Rightarrow> [] | Some sl \<Rightarrow> sl)
                                   [1..<n + 1])) st)"

definition eligible :: "(string \<times> entry) list \<Rightarrow> (string \<times> real list) list" where
  "eligible items =
     concat (map (\<lambda>(l, e). case e of
                    Series xs \<Rightarrow> if \<not> skipped l \<and> 32 \<le> length xs then [(l, xs)] else []
                  | CorrMap c \<Rightarrow> []) items)"

definition eligible_series :: "nat \<Rightarrow> dancer list \<Rightarrow> (string \<times> real list) list" where
  "eligible_series n st = eligible (channels n st)"

text \<open>
  A feature computation run over a list of channels in order, the first exception ending
  the run: what the loop nest of \<open>calculate_fft\<close> and \<open>calculate_mfcc\<close> amounts to on the
  eligible channels.
\<close>

fun collect :: "(string \<Rightarrow> real list \<Rightarrow> py_error + 'f) \<Rightarrow> (string \<times> real list) list \<Rightarrow> 'f list
                  \<Rightarrow> py_error + 'f list" where
  "collect f [] out = Inr out"
| "collect f ((l, xs) # items) out =
     (case f l xs of
        Inl e \<Rightarrow> Inl e
      | Inr v \<Rightarrow> collect f items (out @ [v]))"

text \<open>
  Every sample list of the store \<open>st\<close> holds at least 500 values, and \<open>st\<close> has a sample
  list wherever the store \<open>st0\<close> has one.
\<close>

definition stocked :: "dancer list \<Rightarrow> dancer list \<Rightarrow> bool" where
  "stocked st0 st \<longleftrightarrow>
     (\<forall>p xs. series_at st p = Inr xs \<longrightarrow> 500 \<le> length xs) \<and>
     (\<forall>p xs. series_at st0 p = Inr xs \<longrightarrow> (\<exists>ys. series_at st p = Inr ys))"

section \<open>Properties of the scaling state\<close>

subsection \<open>The bounds only widen\<close>

lemma min_key_neq_max_key: "dt @ ''_min'' \<noteq> dt' @ ''_max''"
proof
  assume "dt @ ''_min'' = dt' @ ''_max''"
  then have "last (dt @ ''_min'') = last (dt' @ ''_max'')" by simp
  then show False by simp
qed

lemma widened_refl: "widened s s"
  by (simp add: widened_def)

lemma widened_trans: 
  assumes st: "widened s t" and tu: "widened t u" shows "widened s u"
  unfolding widened_def
proof (intro conjI allI impI)
  show "ident u = ident s" using st tu by (simp add: widened_def)
next
  fix dt xs assume a: "bounds s (dt @ ''_min'') = Some xs"
  with st obtain ys where ys: "bounds t (dt @ ''_min'') = Some ys" "length ys = length xs"
      "\<forall>i<length xs. ys ! i \<le> xs ! i"
    unfolding widened_def by blast
  with tu obtain zs where zs: "bounds u (dt @ ''_min'') = Some zs" "length zs = length ys"
      "\<forall>i<length ys. zs ! i \<le> ys ! i"
    unfolding widened_def by blast
  from ys zs have "\<forall>i<length xs. zs ! i \<le> xs ! i"
    by (metis order_trans)
  with ys zs show "\<exists>xs'. bounds u (dt @ ''_min'') = Some xs' \<and> length xs' = length xs \<and>
               (\<forall>i<length xs. xs' ! i \<le> xs ! i)" by simp
next
  fix dt xs assume a: "bounds s (dt @ ''_max'') = Some xs"
  with st obtain ys where ys: "bounds t (dt @ ''_max'') = Some ys" "length ys = length xs"
      "\<forall>i<length xs. xs ! i \<le> ys ! i"
    unfolding widened_def by blast
  with tu obtain zs where zs: "bounds u (dt @ ''_max'') = Some zs" "length zs = length ys"
      "\<forall>i<length ys. ys ! i \<le> zs ! i"
    unfolding widened_def by blast
  from ys zs have "\<forall>i<length xs. xs ! i \<le> zs ! i"
    by (metis order_trans)
  with ys zs show "\<exists>xs'. bounds u (dt @ ''_max'') = Some xs' \<and> length xs' = length xs \<and>
               (\<forall>i<length xs. xs ! i \<le> xs' ! i)" by simp
qed

lemma widened_lower:
  assumes m: "bounds s (dt @ ''_min'') = Some mins" and i: "i < length mins" and v: "val < mins ! i"
  shows "widened s (s\<lparr>bounds := (bounds s)(dt @ ''_min'' \<mapsto> mins[i := val])\<rparr>)"
  unfolding widened_def
proof (intro conjI allI impI)
  fix dt' xs assume a: "bounds s (dt' @ ''_min'') = Some xs"
  show "\<exists>xs'. bounds (s\<lparr>bounds := (bounds s)(dt @ ''_min'' \<mapsto> mins[i := val])\<rparr>) (dt' @ ''_min'') = Some xs' \<and>
          length xs' = length xs \<and> (\<forall>i<length xs. xs' ! i \<le> xs ! i)"
  proof (cases "dt' = dt")
    case True
    with a m have "xs = mins" by simp
    with True v i show ?thesis by (auto simp: nth_list_update)
  next
    case False
    with a show ?thesis by simp
  qed
next
  fix dt' xs assume a: "bounds s (dt' @ ''_max'') = Some xs"
  have "dt @ ''_min'' \<noteq> dt' @ ''_max''" by (rule min_key_neq_max_key)
  with a show "\<exists>xs'. bounds (s\<lparr>bounds := (bounds s)(dt @ ''_min'' \<mapsto> mins[i := val])\<rparr>) (dt' @ ''_max'') = Some xs' \<and>
          length xs' = length xs \<and> (\<forall>i<length xs. xs ! i \<le> xs' ! i)"
    by (simp del: append_eq_append_conv)
qed simp

lemma widened_raise:
  assumes m: "bounds s (dt @ ''_max'') = Some maxs" and i: "i < length maxs" and v: "maxs ! i < val"
  shows "widened s (s\<lparr>bounds := (bounds s)(dt @ ''_max'' \<mapsto> maxs[i := val])\<rparr>)"
  unfolding widened_def
proof (intro conjI allI impI)
  fix dt' xs assume a: "bounds s (dt' @ ''_max'') = Some xs"
  show "\<exists>xs'. bounds (s\<lparr>bounds := (bounds s)(dt @ ''_max'' \<mapsto> maxs[i := val])\<rparr>) (dt' @ ''_max'') = Some xs' \<and>
          length xs' = length xs \<and> (\<forall>i<length xs. xs ! i \<le> xs' ! i)"
  proof (cases "dt' = dt")
    case True
    with a m have "xs = maxs" by simp
    with True v i show ?thesis by (auto simp: nth_list_update)
  next
    case False
    with a show ?thesis by simp
  qed
next
  fix dt' xs assume a: "bounds s (dt' @ ''_min'') = Some xs"
  have "dt' @ ''_min'' \<noteq> dt @ ''_max''" by (rule min_key_neq_max_key)
  then have "dt @ ''_max'' \<noteq> dt' @ ''_min''" by (rule not_sym)
  with a show "\<exists>xs'. bounds (s\<lparr>bounds := (bounds s)(dt @ ''_max'' \<mapsto> maxs[i := val])\<rparr>) (dt' @ ''_min'') = Some xs' \<and>
          length xs' = length xs \<and> (\<forall>i<length xs. xs' ! i \<le> xs ! i)"
    by (simp del: append_eq_append_conv)
qed simp

lemma scale_loop_widened:
  "scale_loop dt i vs s acc = (r, s') \<Longrightarrow> widened s s'"
proof (induction vs arbitrary: i s acc)
  case Nil
  then show ?case by (simp add: widened_refl)
next
  case (Cons val rest)
  show ?case
  proof (cases "bounds s (dt @ ''_min'')")
    case None
    with Cons.prems show ?thesis by (simp add: widened_refl)
  next
    case (Some mins)
    note mins = this
    show ?thesis
    proof (cases "bounds s (dt @ ''_max'')")
      case None
      with Cons.prems mins show ?thesis by (simp add: widened_refl split: if_splits)
    next
      case (Some maxs)
      note maxs = this
      show ?thesis
      proof (cases "length mins \<le> i \<or> length maxs \<le> i")
        case True
        with Cons.prems mins maxs show ?thesis by (auto simp: widened_refl split: if_splits)
      next
        case False
        define s1 where "s1 =
              (if val < mins ! i
               then s\<lparr>bounds := (bounds s)(dt @ ''_min'' \<mapsto> mins[i := val])\<rparr>
               else if val > maxs ! i
               then s\<lparr>bounds := (bounds s)(dt @ ''_max'' \<mapsto> maxs[i := val])\<rparr>
               else s)"
        have w1: "widened s s1"
          unfolding s1_def using mins maxs False widened_lower[of s dt mins i val]
            widened_raise[of s dt maxs i val]
          by (simp add: widened_refl)
        from Cons.prems mins maxs False
        have step: "(if maxs ! i - mins ! i = 0 then (Inl ZeroDivisionError, s1)
                else scale_loop dt (Suc i) rest s1 (acc @ [(val - mins ! i) / (maxs ! i - mins ! i)])) = (r, s')"
          unfolding s1_def by (simp add: Let_def)
        show ?thesis
        proof (cases "maxs ! i - mins ! i = 0")
          case True
          with step have "s' = s1" by simp
          with w1 show ?thesis by simp
        next
          case False
          with step have "scale_loop dt (Suc i) rest s1 (acc @ [(val - mins ! i) / (maxs ! i - mins ! i)]) = (r, s')"
            by simp
          then have "widened s1 s'" by (rule Cons.IH)
          with w1 show ?thesis by (rule widened_trans)
        qed
      qed
    qed
  qed
qed

lemma scale_data_widened:
  "scale_data mm sid dt v = (r, mm') \<Longrightarrow> list_all2 widened mm mm'"
proof (induction mm arbitrary: r mm')
  case Nil
  then show ?case by simp
next
  case (Cons sensor others)
  show ?case
  proof (cases "ident sensor = Some sid")
    case True
    obtain r1 s1 where l: "scale_loop dt 0 v sensor [] = (r1, s1)" by (cases "scale_loop dt 0 v sensor []")
    with True Cons.prems have "mm' = s1 # others" by simp
    moreover from l have "widened sensor s1" by (rule scale_loop_widened)
    moreover have "list_all2 widened others others" by (simp add: list_all2_refl widened_refl)
    ultimately show ?thesis by simp
  next
    case False
    obtain r1 o1 where l: "scale_data others sid dt v = (r1, o1)" by (cases "scale_data others sid dt v")
    with False Cons.prems have "mm' = sensor # o1" by simp
    moreover from l have "list_all2 widened others o1" by (rule Cons.IH)
    ultimately show ?thesis by (simp add: widened_refl)
  qed
qed

lemma scale_all_widened: "list_all2 widened mm (scale_all mm calls)"
proof (induction calls arbitrary: mm)
  case Nil
  then show ?case by (simp add: list_all2_refl widened_refl)
next
  case (Cons c calls)
  obtain sid dt v where c: "c = (sid, dt, v)" by (cases c)
  have "list_all2 widened mm (snd (scale_data mm sid dt v))"
    by (rule scale_data_widened[of mm sid dt v "fst (scale_data mm sid dt v)"]) simp
  moreover have "list_all2 widened (snd (scale_data mm sid dt v)) (scale_all (snd (scale_data mm sid dt v)) calls)"
    by (rule Cons.IH)
  ultimately have "list_all2 widened mm (scale_all (snd (scale_data mm sid dt v)) calls)"
    by (rule list_all2_trans[rotated 1]) (rule widened_trans)
  with c show ?case by simp
qed

lemma widened_stored_min:
  assumes w: "list_all2 widened mm mm'" and a: "stored_min mm k dt i = Some a"
  shows "\<exists>a'. stored_min mm' k dt i = Some a' \<and> a' \<le> a"
proof -
  from a have k: "k < length mm" by (simp add: stored_min_def stored_def split: if_splits)
  with w have wk: "widened (mm ! k) (mm' ! k)" and k': "k < length mm'"
    by (simp_all add: list_all2_conv_all_nth)
  from a k obtain xs where xs: "bounds (mm ! k) (dt @ ''_min'') = Some xs" "i < length xs" "a = xs ! i"
    by (auto simp: stored_min_def stored_def split: option.splits if_splits)
  with wk obtain xs' where "bounds (mm' ! k) (dt @ ''_min'') = Some xs'" "length xs' = length xs"
     "\<forall>i<length xs. xs' ! i \<le> xs ! i"
    unfolding widened_def by blast
  with xs k' show ?thesis by (simp add: stored_min_def stored_def)
qed

lemma widened_stored_max:
  assumes w: "list_all2 widened mm mm'" and a: "stored_max mm k dt i = Some a"
  shows "\<exists>a'. stored_max mm' k dt i = Some a' \<and> a \<le> a'"
proof -
  from a have k: "k < length mm" by (simp add: stored_max_def stored_def split: if_splits)
  with w have wk: "widened (mm ! k) (mm' ! k)" and k': "k < length mm'"
    by (simp_all add: list_all2_conv_all_nth)
  from a k obtain xs where xs: "bounds (mm ! k) (dt @ ''_max'') = Some xs" "i < length xs" "a = xs ! i"
    by (auto simp: stored_max_def stored_def split: option.splits if_splits)
  with wk obtain xs' where "bounds (mm' ! k) (dt @ ''_max'') = Some xs'" "length xs' = length xs"
     "\<forall>i<length xs. xs ! i \<le> xs' ! i"
    unfolding widened_def by blast
  with xs k' show ?thesis by (simp add: stored_max_def stored_def)
qed

text \<open>
  C8.  Whatever the state and whatever calls of \<open>scale_data\<close> follow, in any order and
  for any sensors, data types and raw vectors (also when a call raises), every stored
  minimum is afterwards at most what it was and every stored maximum at least what it was.
  Since the starting state is arbitrary, this holds between any two points of a run.
\<close>

theorem bounds_only_widen:
  "(stored_min mm k dt i = Some a \<longrightarrow>
      (\<exists>a'. stored_min (scale_all mm calls) k dt i = Some a' \<and> a' \<le> a)) \<and>
   (stored_max mm k dt i = Some b \<longrightarrow>
      (\<exists>b'. stored_max (scale_all mm calls) k dt i = Some b' \<and> b \<le> b'))"
  using widened_stored_min[OF scale_all_widened] widened_stored_max[OF scale_all_widened]
  by blast

theorem bounds_only_widen_witness:
  "stored_min (scale_all (configured [''00B4F11A'']) [(''00B4F11A'', ''rot'', [5])]) 0 ''rot'' 0 = Some 0 \<and>
   stored_max (scale_all (configured [''00B4F11A'']) [(''00B4F11A'', ''rot'', [5])]) 0 ''rot'' 0 = Some 5 \<and>
   (\<exists>a'. stored_min (scale_all (scale_all (configured [''00B4F11A'']) [(''00B4F11A'', ''rot'', [5])])
                 [(''00B4F11A'', ''rot'', [2])]) 0 ''rot'' 0 = Some a' \<and> a' \<le> 0) \<and>
   (\<exists>b'. stored_max (scale_all (scale_all (configured [''00B4F11A'']) [(''00B4F11A'', ''rot'', [5])])
                 [(''00B4F11A'', ''rot'', [2])]) 0 ''rot'' 0 = Some b' \<and> 5 \<le> b')"
proof -
  have a: "stored_min (scale_all (configured [''00B4F11A'']) [(''00B4F11A'', ''rot'', [5])]) 0 ''rot'' 0 = Some 0"
    by (simp add: configured_def set_ids_def init_minmax_def locations_def numeral_eq_Suc
          init_entry_def init_bounds_def stored_min_def stored_def)
  have b: "stored_max (scale_all (configured [''00B4F11A'']) [(''00B4F11A'', ''rot'', [5])]) 0 ''rot'' 0 = Some 5"
    by (simp add: configured_def set_ids_def init_minmax_def locations_def numeral_eq_Suc
          init_entry_def init_bounds_def stored_max_def stored_def)
  from a b bounds_only_widen[of "scale_all (configured [''00B4F11A'']) [(''00B4F11A'', ''rot'', [5])]"
      0 "''rot''" 0 0 "[(''00B4F11A'', ''rot'', [2])]" 5]
  show ?thesis by blast
qed

subsection \<open>The divisor is never zero\<close>

lemma apart_lower:
  assumes ap: "apart s" and m: "bounds s (dt @ ''_min'') = Some mins" and i: "i < length mins"
    and v: "val < mins ! i"
  shows "apart (s\<lparr>bounds := (bounds s)(dt @ ''_min'' \<mapsto> mins[i := val])\<rparr>)"
  unfolding apart_def
proof (intro conjI allI impI ballI)
  fix dt' xs x
  assume a: "bounds (s\<lparr>bounds := (bounds s)(dt @ ''_min'' \<mapsto> mins[i := val])\<rparr>) (dt' @ ''_min'') = Some xs"
    and x: "x \<in> set xs"
  show "x \<le> 0"
  proof (cases "dt' = dt")
    case True
    with a have "xs = mins[i := val]" by simp
    with x have "x = val \<or> x \<in> set mins" using set_update_subset_insert[of mins i val] by auto
    moreover from ap m i have "mins ! i \<le> 0" by (auto simp: apart_def)
    moreover from ap m have "\<forall>y\<in>set mins. y \<le> 0" by (auto simp: apart_def)
    ultimately show ?thesis using v by auto
  next
    case False
    with a have "bounds s (dt' @ ''_min'') = Some xs" by simp
    with ap x show ?thesis unfolding apart_def by blast
  qed
next
  fix dt' xs x
  assume a: "bounds (s\<lparr>bounds := (bounds s)(dt @ ''_min'' \<mapsto> mins[i := val])\<rparr>) (dt' @ ''_max'') = Some xs"
    and x: "x \<in> set xs"
  have "dt @ ''_min'' \<noteq> dt' @ ''_max''" by (rule min_key_neq_max_key)
  with a have "bounds s (dt' @ ''_max'') = Some xs" by (simp del: append_eq_append_conv)
  with ap x show "1 \<le> x" unfolding apart_def by blast
qed

lemma apart_raise:
  assumes ap: "apart s" and m: "bounds s (dt @ ''_max'') = Some maxs" and i: "i < length maxs"
    and v: "maxs ! i < val"
  shows "apart (s\<lparr>bounds := (bounds s)(dt @ ''_max'' \<mapsto> maxs[i := val])\<rparr>)"
  unfolding apart_def
proof (intro conjI allI impI ballI)
  fix dt' xs x
  assume a: "bounds (s\<lparr>bounds := (bounds s)(dt @ ''_max'' \<mapsto> maxs[i := val])\<rparr>) (dt' @ ''_max'') = Some xs"
    and x: "x \<in> set xs"
  show "1 \<le> x"
  proof (cases "dt' = dt")
    case True
    with a have "xs = maxs[i := val]" by simp
    with x have "x = val \<or> x \<in> set maxs" using set_update_subset_insert[of maxs i val] by auto
    moreover from ap m i have "1 \<le> maxs ! i" by (auto simp: apart_def)
    moreover from ap m have "\<forall>y\<in>set maxs. 1 \<le> y" by (auto simp: apart_def)
    ultimately show ?thesis using v by auto
  next
    case False
    with a have "bounds s (dt' @ ''_max'') = Some xs" by simp
    with ap x show ?thesis unfolding apart_def by blast
  qed
next
  fix dt' xs x
  assume a: "bounds (s\<lparr>bounds := (bounds s)(dt @ ''_max'' \<mapsto> maxs[i := val])\<rparr>) (dt' @ ''_min'') = Some xs"
    and x: "x \<in> set xs"
  have "dt' @ ''_min'' \<noteq> dt @ ''_max''" by (rule min_key_neq_max_key)
  then have "dt @ ''_max'' \<noteq> dt' @ ''_min''" by (rule not_sym)
  with a have "bounds s (dt' @ ''_min'') = Some xs" by (simp del: append_eq_append_conv)
  with ap x show "x \<le> 0" unfolding apart_def by blast
qed

lemma scale_loop_apart:
  "apart s \<Longrightarrow> scale_loop dt i vs s acc = (r, s') \<Longrightarrow> apart s' \<and> r \<noteq> Inl ZeroDivisionError"
proof (induction vs arbitrary: i s acc)
  case Nil
  then show ?case by auto
next
  case (Cons val rest)
  note ap = Cons.prems(1) and run = Cons.prems(2)
  show ?case
  proof (cases "bounds s (dt @ ''_min'')")
    case None
    with ap run show ?thesis by auto
  next
    case (Some mins)
    note mins = this
    show ?thesis
    proof (cases "bounds s (dt @ ''_max'')")
      case None
      with ap run mins show ?thesis by (auto split: if_splits)
    next
      case (Some maxs)
      note maxs = this
      show ?thesis
      proof (cases "length mins \<le> i \<or> length maxs \<le> i")
        case True
        with ap run mins maxs show ?thesis by (auto split: if_splits)
      next
        case False
        define s1 where "s1 =
              (if val < mins ! i
               then s\<lparr>bounds := (bounds s)(dt @ ''_min'' \<mapsto> mins[i := val])\<rparr>
               else if val > maxs ! i
               then s\<lparr>bounds := (bounds s)(dt @ ''_max'' \<mapsto> maxs[i := val])\<rparr>
               else s)"
        have a1: "apart s1"
          unfolding s1_def using ap mins maxs False apart_lower[of s dt mins i val]
            apart_raise[of s dt maxs i val]
          by simp
        from ap mins maxs False have "mins ! i \<le> 0" "1 \<le> maxs ! i"
          by (auto simp: apart_def)
        then have nz: "maxs ! i - mins ! i \<noteq> 0" by simp
        from run mins maxs False nz
        have "scale_loop dt (Suc i) rest s1 (acc @ [(val - mins ! i) / (maxs ! i - mins ! i)]) = (r, s')"
          unfolding s1_def by (simp add: Let_def)
        with a1 show ?thesis by (rule Cons.IH)
      qed
    qed
  qed
qed

lemma scale_data_apart:
  "list_all apart mm \<Longrightarrow> scale_data mm sid dt v = (r, mm') \<Longrightarrow>
     list_all apart mm' \<and> r \<noteq> Inl ZeroDivisionError"
proof (induction mm arbitrary: r mm')
  case Nil
  then show ?case by auto
next
  case (Cons sensor others)
  show ?case
  proof (cases "ident sensor = Some sid")
    case True
    obtain r1 s1 where l: "scale_loop dt 0 v sensor [] = (r1, s1)" by (cases "scale_loop dt 0 v sensor []")
    with True Cons.prems have "mm' = s1 # others" "r = r1" by simp_all
    moreover from Cons.prems l have "apart s1 \<and> r1 \<noteq> Inl ZeroDivisionError"
      using scale_loop_apart[of sensor dt 0 v "[]" r1 s1] by simp
    ultimately show ?thesis using Cons.prems by simp
  next
    case False
    obtain r1 o1 where l: "scale_data others sid dt v = (r1, o1)" by (cases "scale_data others sid dt v")
    with False Cons.prems have "mm' = sensor # o1" "r = r1" by simp_all
    moreover from Cons.prems l have "list_all apart o1 \<and> r1 \<noteq> Inl ZeroDivisionError"
      using Cons.IH[of r1 o1] by simp
    ultimately show ?thesis using Cons.prems by simp
  qed
qed

lemma scale_all_apart: "list_all apart mm \<Longrightarrow> list_all apart (scale_all mm calls)"
proof (induction calls arbitrary: mm)
  case Nil
  then show ?case by simp
next
  case (Cons c calls)
  obtain sid dt v where c: "c = (sid, dt, v)" by (cases c)
  from Cons.prems have "list_all apart (snd (scale_data mm sid dt v))"
    using scale_data_apart[of mm sid dt v "fst (scale_data mm sid dt v)" "snd (scale_data mm sid dt v)"]
    by simp
  then have "list_all apart (scale_all (snd (scale_data mm sid dt v)) calls)" by (rule Cons.IH)
  with c show ?case by simp
qed

lemma init_bounds_cases:
  "map_of init_bounds key = Some xs \<Longrightarrow>
     (last key = CHR ''n'' \<and> set xs \<subseteq> {0}) \<or> (last key = CHR ''x'' \<and> set xs \<subseteq> {1})"
  by (auto simp: init_bounds_def split: if_splits)

lemma apart_init_entry: "apart init_entry"
  unfolding apart_def
proof (intro conjI allI impI ballI)
  fix dt xs x assume "bounds init_entry (dt @ ''_min'') = Some xs" "x \<in> set xs"
  then show "x \<le> 0" using init_bounds_cases[of "dt @ ''_min''" xs]
    by (auto simp: init_entry_def)
next
  fix dt xs x assume "bounds init_entry (dt @ ''_max'') = Some xs" "x \<in> set xs"
  then show "1 \<le> x" using init_bounds_cases[of "dt @ ''_max''" xs]
    by (auto simp: init_entry_def)
qed

lemma set_ids_loop_apart:
  "list_all apart mm \<Longrightarrow> list_all apart (snd (set_ids_loop i ids mm))"
proof (induction ids arbitrary: i mm)
  case Nil
  then show ?case by simp
next
  case (Cons sid rest)
  show ?case
  proof (cases "map_of locations sid")
    case None
    with Cons.prems show ?thesis by simp
  next
    case (Some loc)
    show ?thesis
    proof (cases "i < length mm")
      case True
      from Cons.prems True have "apart (mm ! i)" by (simp add: list_all_length)
      then have "apart ((mm ! i)\<lparr>ident := Some sid\<rparr>)" by (simp add: apart_def)
      with Cons.prems True have "list_all apart (mm[i := (mm ! i)\<lparr>ident := Some sid\<rparr>])"
        by (auto simp: list_all_length nth_list_update)
      then have "list_all apart (snd (set_ids_loop (Suc i) rest (mm[i := (mm ! i)\<lparr>ident := Some sid\<rparr>])))"
        by (rule Cons.IH)
      with Some True show ?thesis by simp
    next
      case False
      with Some Cons.prems show ?thesis by simp
    qed
  qed
qed

lemma configured_apart: "list_all apart (configured ids)"
  unfolding configured_def set_ids_def
  by (rule set_ids_loop_apart) (simp add: init_minmax_def apart_init_entry list_all_length)

lemma reachable_apart: "list_all apart (scale_all (configured ids) calls)"
  by (rule scale_all_apart) (rule configured_apart)

lemma apart_stored:
  assumes "list_all apart mm"
  shows "(stored_min mm k dt i = Some a \<longrightarrow> a \<le> 0) \<and> (stored_max mm k dt i = Some b \<longrightarrow> 1 \<le> b)"
  using assms
  by (auto simp: stored_min_def stored_max_def stored_def list_all_length apart_def
           split: if_splits option.splits)

text \<open>
  C7 (as amended).  In every state reached from the initial bounds (\<open>__init__\<close>, then
  \<open>set_ids\<close> for any devices) by any calls of \<open>scale_data\<close>, a call of \<open>scale_data\<close>
  never raises \<open>ZeroDivisionError\<close>: every stored minimum is at most 0 and every stored
  maximum at least 1, so the divisor \<open>maximum - minimum\<close> is at least 1.
\<close>

theorem division_by_zero_unreachable:
  "fst (scale_data (scale_all (configured ids) calls) sensor_id data_type value) \<noteq> Inl ZeroDivisionError \<and>
   (stored_min (scale_all (configured ids) calls) k dt i = Some a \<longrightarrow>
    stored_max (scale_all (configured ids) calls) k dt i = Some b \<longrightarrow> a \<le> 0 \<and> 1 \<le> b \<and> b - a \<noteq> 0)"
proof
  show "fst (scale_data (scale_all (configured ids) calls) sensor_id data_type value) \<noteq> Inl ZeroDivisionError"
    using scale_data_apart[OF reachable_apart, of ids calls sensor_id data_type "value"
        "fst (scale_data (scale_all (configured ids) calls) sensor_id data_type value)"
        "snd (scale_data (scale_all (configured ids) calls) sensor_id data_type value)"]
    by simp
next
  show "stored_min (scale_all (configured ids) calls) k dt i = Some a \<longrightarrow>
    stored_max (scale_all (configured ids) calls) k dt i = Some b \<longrightarrow> a \<le> 0 \<and> 1 \<le> b \<and> b - a \<noteq> 0"
    using apart_stored[OF reachable_apart, of ids calls k dt i a b] by auto
qed

text \<open>
  C7 as stated fails: no stream of identical raw values brings the stored minimum and
  maximum of the rate-of-turn channel to the same value.
\<close>

theorem identical_stream_counterexample:
  "\<not> (\<exists>v n a. stored_min (scale_all (configured [''00B4F11A'']) (replicate n (''00B4F11A'', ''rot'', [v]))) 0 ''rot'' 0 = Some a
             \<and> stored_max (scale_all (configured [''00B4F11A'']) (replicate n (''00B4F11A'', ''rot'', [v]))) 0 ''rot'' 0 = Some a)"
proof
  assume "\<exists>v n a. stored_min (scale_all (configured [''00B4F11A'']) (replicate n (''00B4F11A'', ''rot'', [v]))) 0 ''rot'' 0 = Some a
             \<and> stored_max (scale_all (configured [''00B4F11A'']) (replicate n (''00B4F11A'', ''rot'', [v]))) 0 ''rot'' 0 = Some a"
  then obtain v n a where
    "stored_min (scale_all (configured [''00B4F11A'']) (replicate n (''00B4F11A'', ''rot'', [v]))) 0 ''rot'' 0 = Some a"
    "stored_max (scale_all (configured [''00B4F11A'']) (replicate n (''00B4F11A'', ''rot'', [v]))) 0 ''rot'' 0 = Some a"
    by blast
  then have "a \<le> 0" "1 \<le> a"
    using apart_stored[OF reachable_apart, of "[''00B4F11A'']" "replicate n (''00B4F11A'', ''rot'', [v])" 0 "''rot''" 0 a a]
    by auto
  then show False by simp
qed


theorem division_by_zero_unreachable_witness:
  "stored_min (scale_all (configured [''00B4F11A'']) [(''00B4F11A'', ''rot'', [7]), (''00B4F11A'', ''rot'', [7])])
     0 ''rot'' 0 = Some 0 \<and>
   stored_max (scale_all (configured [''00B4F11A'']) [(''00B4F11A'', ''rot'', [7]), (''00B4F11A'', ''rot'', [7])])
     0 ''rot'' 0 = Some 7 \<and>
   (0::real) \<le> 0 \<and> (1::real) \<le> 7 \<and> (7::real) - 0 \<noteq> 0 \<and>
   fst (scale_data (scale_all (configured [''00B4F11A''])
          [(''00B4F11A'', ''rot'', [7]), (''00B4F11A'', ''rot'', [7])]) ''00B4F11A'' ''rot'' [7])
     \<noteq> Inl ZeroDivisionError"
proof -
  have a: "stored_min (scale_all (configured [''00B4F11A'']) [(''00B4F11A'', ''rot'', [7]), (''00B4F11A'', ''rot'', [7])])
     0 ''rot'' 0 = Some 0"
    by (simp add: configured_def set_ids_def init_minmax_def locations_def numeral_eq_Suc
          init_entry_def init_bounds_def stored_min_def stored_def)
  have b: "stored_max (scale_all (configured [''00B4F11A'']) [(''00B4F11A'', ''rot'', [7]), (''00B4F11A'', ''rot'', [7])])
     0 ''rot'' 0 = Some 7"
    by (simp add: configured_def set_ids_def init_minmax_def locations_def numeral_eq_Suc
          init_entry_def init_bounds_def stored_max_def stored_def)
  from a b division_by_zero_unreachable[of "[''00B4F11A'']"
      "[(''00B4F11A'', ''rot'', [7]), (''00B4F11A'', ''rot'', [7])]" "''00B4F11A''" "''rot''" "[7]"
      0 "''rot''" 0 0 7]
  show ?thesis by blast
qed

subsection \<open>The value returned for a raw value outside the bounds\<close>

text \<open>
  C1.  From the initial bounds \<open>[0]\<close>, \<open>[1]\<close> of the rate-of-turn channel the raw value 5
  raises the stored maximum to 5, and the value returned is \<open>(5 - 0) / (1 - 0) = 5\<close>: the
  quotient is taken with the bounds read before the update.
\<close>

theorem scale_data_new_maximum:
  "fst (scale_data (configured [''00B4F11A'']) ''00B4F11A'' ''rot'' [5]) = Inr [5] \<and>
   stored_max (snd (scale_data (configured [''00B4F11A'']) ''00B4F11A'' ''rot'' [5])) 0 ''rot'' 0 = Some 5"
  by (simp add: configured_def set_ids_def init_minmax_def locations_def numeral_eq_Suc
        init_entry_def init_bounds_def stored_max_def stored_def)

section \<open>Properties of the time series store\<close>

subsection \<open>Bounded windows\<close>







lemma series_at_put:
  assumes "series_at st p = Inr xs"
  shows "series_at (put_series st p ys) q = (if q = p then Inr ys else series_at st q)"
proof -
  obtain d sk lbl where p: "p = (d, sk, lbl)" by (cases p)
  obtain d' sk' lbl' where q: "q = (d', sk', lbl')" by (cases q)
  from assms p have d: "d < length st" by (simp add: series_at_def split: if_splits)
  with assms p obtain sl where sl: "map_of (st ! d) sk = Some sl" "map_of sl lbl = Some (Series xs)"
    by (auto simp: series_at_def split: option.splits entry.splits)
  show ?thesis
  proof (cases "d' = d")
    case False
    then show ?thesis using d unfolding p q series_at_def put_series_def
      by (simp add: nth_list_update)
  next
    case True
    note dd = this
    have st': "put_series st p ys ! d = AList.map_entry sk (AList.update lbl (Series ys)) (st ! d)"
      using d unfolding p put_series_def by simp
    have len: "length (put_series st p ys) = length st" unfolding p put_series_def by simp
    show ?thesis
    proof (cases "sk' = sk")
      case False
      then show ?thesis using d dd st' len unfolding q series_at_def
        by (simp add: map_of_map_entry p)
    next
      case True
      note ss = this
      show ?thesis
      proof (cases "lbl' = lbl")
        case True
        then show ?thesis using d dd ss st' len sl unfolding q series_at_def
          by (simp add: map_of_map_entry update_conv' p)
      next
        case False
        then show ?thesis using d dd ss st' len sl unfolding q series_at_def
          by (simp add: map_of_map_entry update_conv' p)
      qed
    qed
  qed
qed


















lemma set_update_cases:
  "(k', v') \<in> set (AList.update k v al) \<Longrightarrow> (k', v') = (k, v) \<or> (k', v') \<in> set al"
  by (induction al) (auto split: if_splits)

lemma set_map_entry_cases:
  "(k', v') \<in> set (AList.map_entry k f al) \<Longrightarrow>
     (k', v') \<in> set al \<or> (\<exists>v0. (k, v0) \<in> set al \<and> k' = k \<and> v' = f v0)"
  by (induction al) (auto split: if_splits)

lemma zero_slot_update:
  "zero_slot sl \<Longrightarrow> (\<forall>xs. e = Series xs \<longrightarrow> xs = zeros) \<Longrightarrow> zero_slot (AList.update l e sl)"
  unfolding zero_slot_def using set_update_cases[of _ _ l e sl] by blast

lemma zero_dancer_set_label:
  assumes "zero_dancer d" "\<forall>xs. e = Series xs \<longrightarrow> xs = zeros"
  shows "zero_dancer (set_label sens l e d)"
  unfolding zero_dancer_def set_label_def
proof (intro ballI, clarify)
  fix k sl assume "(k, sl) \<in> set (AList.map_entry sens (AList.update l e) d)"
  then consider "(k, sl) \<in> set d" | v0 where "(sens, v0) \<in> set d" "sl = AList.update l e v0"
    using set_map_entry_cases[of k sl sens "AList.update l e" d] by blast
  then show "zero_slot sl"
  proof cases
    case 1
    with assms(1) show ?thesis unfolding zero_dancer_def by blast
  next
    case 2
    with assms(1) have "zero_slot v0" unfolding zero_dancer_def by blast
    with 2 assms(2) show ?thesis by (simp add: zero_slot_update)
  qed
qed

lemma zero_dancer_empty: "zero_dancer (empty_dancer m)"
proof -
  have "zero_dancer (fold (\<lambda>sensor_num d. AList.update (snsr sensor_num) [] d) ns d)"
    if "zero_dancer d" for ns d
    using that
  proof (induction ns arbitrary: d)
    case Nil
    then show ?case by simp
  next
    case (Cons n ns)
    have "zero_dancer (AList.update (snsr n) [] d)"
      unfolding zero_dancer_def
      using Cons.prems set_update_cases[of _ _ "snsr n" "[]" d]
      by (fastforce simp: zero_dancer_def zero_slot_def)
    then show ?case using Cons.IH by simp
  qed
  moreover have "zero_dancer []" by (simp add: zero_dancer_def)
  ultimately show ?thesis unfolding empty_dancer_def by blast
qed

lemma zero_dancer_zero_series: "zero_dancer d \<Longrightarrow> zero_dancer (zero_series m d)"
  unfolding zero_series_def
  by (rule fold_invariant[where Q = "\<lambda>_. True"], simp, assumption,
      rule fold_invariant[where Q = "\<lambda>_. True"], simp, assumption)
     (simp add: zero_dancer_set_label)

lemma zero_dancer_add_correlation:
  "zero_dancer d \<Longrightarrow> zero_dancer (add_correlation n m d1 label sens d)"
  by (simp add: add_correlation_def zero_dancer_set_label)

lemma zero_dancer_correlation_series: "zero_dancer d \<Longrightarrow> zero_dancer (correlation_series n m d1 d)"
  unfolding correlation_series_def
  by (rule fold_invariant[where Q = "\<lambda>_. True"], simp, assumption,
      rule fold_invariant[where Q = "\<lambda>_. True"], simp, assumption,
      rule fold_invariant[where Q = "\<lambda>_. True"], simp, assumption,
      rule fold_invariant[where Q = "\<lambda>_. True"], simp, assumption)
     (simp add: zero_dancer_add_correlation)

lemma dancers_zero: "d \<in> set (dancers n m) \<Longrightarrow> zero_dancer d"
  unfolding dancers_def
  by (auto intro!: zero_dancer_correlation_series zero_dancer_zero_series zero_dancer_empty)

lemma initial_series_zeros:
  assumes "series_at (dancers n m) p = Inr xs" shows "xs = zeros"
proof -
  obtain d sk lbl where p: "p = (d, sk, lbl)" by (cases p)
  from assms p have d: "d < length (dancers n m)" by (simp add: series_at_def split: if_splits)
  with assms p obtain sl where sl: "map_of (dancers n m ! d) sk = Some sl" "map_of sl lbl = Some (Series xs)"
    by (auto simp: series_at_def split: option.splits entry.splits)
  from d have "dancers n m ! d \<in> set (dancers n m)" by (rule nth_mem)
  then have "zero_dancer (dancers n m ! d)" by (rule dancers_zero)
  with sl(1) have "zero_slot sl" unfolding zero_dancer_def using map_of_SomeD by fastforce
  with sl(2) show ?thesis unfolding zero_slot_def using map_of_SomeD by fastforce
qed









section \<open>Properties of the ingestion loop\<close>

lemma radians_range:
  assumes "- 180 \<le> x" "x \<le> (180::real)"
  shows "- pi \<le> pi * x / 180" "pi * x / 180 \<le> pi"
proof -
  have p: "0 \<le> pi" by simp
  from assms(1) have "pi * (- 180) \<le> pi * x" using p by (rule mult_left_mono)
  then show "- pi \<le> pi * x / 180" by simp
  from assms(2) have "pi * x \<le> pi * 180" using p by (rule mult_left_mono)
  then show "pi * x / 180 \<le> pi" by simp
qed

lemma euler_osc_eq:
  "euler_osc (x, y, z) = [pi * x / 180 + 1 + pi, pi * y / 180 + pi, pi * z / 180 + 1 + pi]"
  by (simp add: euler_osc_def euler_value_def)

text \<open>
  C6 (as amended).  The three Euler components of the outbound message are the angle in
  radians plus \<open>1 + \<pi>\<close> for \<open>x\<close>, plus \<open>\<pi>\<close> for \<open>y\<close> and plus \<open>1 + \<pi>\<close> for \<open>z\<close>; they are the
  first three values the orientation block appends.  For device angles between -180
  and 180 degrees each of them lies in \<open>[0, 4 \<pi>]\<close>.
\<close>

theorem euler_osc_components:
  "euler_osc (x, y, z) = [pi * x / 180 + 1 + pi, pi * y / 180 + pi, pi * z / 180 + 1 + pi] \<and>
   (orientation_data sid ((x, y, z), q) r = (Inr osc, r') \<longrightarrow> take 3 osc = euler_osc (x, y, z)) \<and>
   (- 180 \<le> x \<and> x \<le> 180 \<and> - 180 \<le> y \<and> y \<le> 180 \<and> - 180 \<le> z \<and> z \<le> 180 \<longrightarrow>
      (\<forall>c\<in>set (euler_osc (x, y, z)). 0 \<le> c \<and> c \<le> 4 * pi))"
proof (intro conjI impI)
  show "euler_osc (x, y, z) = [pi * x / 180 + 1 + pi, pi * y / 180 + pi, pi * z / 180 + 1 + pi]"
    by (rule euler_osc_eq)
next
  assume a: "orientation_data sid ((x, y, z), q) r = (Inr osc, r')"
  obtain q0 q1 q2 q3 where q: "q = (q0, q1, q2, q3)" by (cases q)
  from a q have "osc = euler_osc (x, y, z) @ [q0, - q1, q3, q2]"
    by (auto simp: orientation_data_def split: prod.splits option.splits)
  then show "take 3 osc = euler_osc (x, y, z)" by (simp add: euler_osc_def)
next
  assume a: "- 180 \<le> x \<and> x \<le> 180 \<and> - 180 \<le> y \<and> y \<le> 180 \<and> - 180 \<le> z \<and> z \<le> 180"
  have p: "2 \<le> pi" by (rule pi_ge_two)
  define a where "a = pi * x / 180 + 1 + pi"
  define b where "b = pi * y / 180 + pi"
  define c where "c = pi * z / 180 + 1 + pi"
  have e: "euler_osc (x, y, z) = [a, b, c]" by (simp add: euler_osc_eq a_def b_def c_def)
  from a have r: "- pi \<le> pi * x / 180" "pi * x / 180 \<le> pi" "- pi \<le> pi * y / 180" "pi * y / 180 \<le> pi"
    "- pi \<le> pi * z / 180" "pi * z / 180 \<le> pi"
    using radians_range[of x] radians_range[of y] radians_range[of z] by blast+
  have "0 \<le> a" "a \<le> 4 * pi" unfolding a_def using p r(1,2) by linarith+
  moreover have "0 \<le> b" "b \<le> 4 * pi" unfolding b_def using p r(3,4) by linarith+
  moreover have "0 \<le> c" "c \<le> 4 * pi" unfolding c_def using p r(5,6) by linarith+
  ultimately show "\<forall>c\<in>set (euler_osc (x, y, z)). 0 \<le> c \<and> c \<le> 4 * pi"
    unfolding e by simp
qed

text \<open>
  C6 as stated fails: for the angles \<open>(0, 0, 0)\<close> the components are \<open>1 + \<pi>\<close>, \<open>\<pi>\<close>,
  \<open>1 + \<pi>\<close> and not the angle shifted by \<open>\<pi>\<close> twice.
\<close>

theorem euler_osc_counterexample:
  "euler_osc (0, 0, 0) = [1 + pi, pi, 1 + pi] \<and>
   euler_osc (0, 0, 0) \<noteq> [pi * 0 / 180 + pi + pi, pi * 0 / 180 + pi + pi, pi * 0 / 180 + pi + pi]"
  using pi_ge_two by (simp add: euler_osc_eq)

lemma send_data_unknown:
  "map_of locations sid = None \<Longrightarrow> send_data sid dt v t = (Some KeyError, t)"
  by (simp add: send_data_def)

lemma process_unknown:
  "containsStoredDeviceId pk \<Longrightarrow> map_of locations (deviceId pk) = None \<Longrightarrow>
     process_packet thr pk r = (Some KeyError, r\<lparr>sensor_id_var := Some (deviceId pk)\<rparr>)"
  by (simp add: process_packet_def)

lemma recording_loop_append:
  "recording_loop thr pre r = (None, r1) \<Longrightarrow>
     recording_loop thr (pre @ rest) r = recording_loop thr rest r1"
proof (induction pre arbitrary: r)
  case Nil
  then show ?case by simp
next
  case (Cons pk pre)
  then show ?case by (cases "process_packet thr pk r") (auto split: option.splits)
qed

text \<open>
  C4 (as amended).  For a sensor id that \<open>locations\<close> does not have, \<open>send_data\<close> raises
  \<open>KeyError\<close> and leaves the store as it was.  In \<open>recording_loop\<close> a packet carrying
  such an id raises the same \<open>KeyError\<close> in the loop's own lookup; nothing catches it, so
  the loop ends there with the store and the scaling bounds as the packets before left
  them, and the packets after it are not handled.
\<close>

theorem unknown_sensor_aborts:
  assumes "map_of locations sid = None"
  shows "send_data sid data_type value t = (Some KeyError, t) \<and>
         (containsStoredDeviceId pk \<longrightarrow> deviceId pk = sid \<longrightarrow>
          recording_loop thr before r = (None, r1) \<longrightarrow>
            recording_loop thr (before @ pk # after) r = (Some KeyError, r1\<lparr>sensor_id_var := Some sid\<rparr>) \<and>
            sensors_data (snd (recording_loop thr (before @ pk # after) r)) = sensors_data r1 \<and>
            minmax_of (snd (recording_loop thr (before @ pk # after) r)) = minmax_of r1)"
proof (intro conjI impI)
  show "send_data sid data_type value t = (Some KeyError, t)"
    using assms by (rule send_data_unknown)
next
  assume a: "containsStoredDeviceId pk" "deviceId pk = sid" "recording_loop thr before r = (None, r1)"
  from a(1,2) assms have "process_packet thr pk r1 = (Some KeyError, r1\<lparr>sensor_id_var := Some sid\<rparr>)"
    using process_unknown[of pk thr r1] by simp
  then have "recording_loop thr (pk # after) r1 = (Some KeyError, r1\<lparr>sensor_id_var := Some sid\<rparr>)"
    by simp
  with a(3) show l: "recording_loop thr (before @ pk # after) r = (Some KeyError, r1\<lparr>sensor_id_var := Some sid\<rparr>)"
    by (simp add: recording_loop_append)
  from l show "sensors_data (snd (recording_loop thr (before @ pk # after) r)) = sensors_data r1" by simp
  from l show "minmax_of (snd (recording_loop thr (before @ pk # after) r)) = minmax_of r1" by simp
qed

lemma unknown_id: "map_of locations ''00B42D56'' = None"
  by (simp add: locations_def)

text \<open>
  C4 as stated fails: after a packet with an id not in \<open>locations\<close> (one of the ids the
  source has commented out) the loop does not continue with the next packet; the run
  ends with \<open>KeyError\<close> and the second packet leaves no trace.
\<close>

theorem unknown_sensor_counterexample:
  "recording_loop 30
     [\<lparr>containsStoredDeviceId = True, deviceId = ''00B42D56'', calibrated = None,
       orientation = Some ((0, 0, 0), (1, 0, 0, 0)), arrival = 0\<rparr>,
      \<lparr>containsStoredDeviceId = True, deviceId = ''00B4F114'', calibrated = None,
       orientation = Some ((0, 0, 0), (1, 0, 0, 0)), arrival = 1\<rparr>]
     (recorder_init [])
   = (Some KeyError, (recorder_init [])\<lparr>sensor_id_var := Some ''00B42D56''\<rparr>)"
  by (simp add: process_unknown unknown_id)

theorem unknown_sensor_aborts_witness:
  "map_of locations ''00B42D56'' = None \<and>
   send_data ''00B42D56'' ''ori'' [0, 0, 0] Sensors_init = (Some KeyError, Sensors_init) \<and>
   recording_loop 30 [] (recorder_init []) = (None, recorder_init []) \<and>
   recording_loop 30
     ([] @ \<lparr>containsStoredDeviceId = True, deviceId = ''00B42D56'', calibrated = None,
            orientation = None, arrival = 0\<rparr> # [])
     (recorder_init [])
   = (Some KeyError, (recorder_init [])\<lparr>sensor_id_var := Some ''00B42D56''\<rparr>)"
  using unknown_sensor_aborts[OF unknown_id, of "''ori''" "[0, 0, 0]" Sensors_init
      "\<lparr>containsStoredDeviceId = True, deviceId = ''00B42D56'', calibrated = None,
            orientation = None, arrival = 0\<rparr>" 30 "[]" "recorder_init []" "recorder_init []" "[]"]
    unknown_id
  by simp

theorem euler_osc_components_witness:
  "- 180 \<le> (90::real) \<and> (90::real) \<le> 180 \<and> - 180 \<le> (- 45::real) \<and> (- 45::real) \<le> 180 \<and>
   - 180 \<le> (180::real) \<and> (180::real) \<le> 180 \<and>
   euler_osc (90, - 45, 180) = [pi * 90 / 180 + 1 + pi, pi * (- 45) / 180 + pi, pi * 180 / 180 + 1 + pi] \<and>
   0 \<le> pi * 90 / 180 + 1 + pi \<and> pi * 90 / 180 + 1 + pi \<le> 4 * pi \<and>
   0 \<le> pi * (- 45) / 180 + pi \<and> pi * (- 45) / 180 + pi \<le> 4 * pi \<and>
   0 \<le> pi * 180 / 180 + 1 + pi \<and> pi * 180 / 180 + 1 + pi \<le> 4 * pi"
proof -
  note t = euler_osc_components[of 90 "- 45" 180]
  from t have e: "euler_osc (90, - 45, 180)
      = [pi * 90 / 180 + 1 + pi, pi * (- 45) / 180 + pi, pi * 180 / 180 + 1 + pi]"
    by blast
  have h: "- 180 \<le> (90::real) \<and> (90::real) \<le> 180 \<and> - 180 \<le> (- 45::real) \<and> (- 45::real) \<le> 180 \<and>
   - 180 \<le> (180::real) \<and> (180::real) \<le> 180" by simp
  with t have "\<forall>c\<in>set (euler_osc (90, - 45, 180)). 0 \<le> c \<and> c \<le> 4 * pi" by blast
  then have "\<forall>c\<in>set [pi * 90 / 180 + 1 + pi, pi * (- 45) / 180 + pi, pi * 180 / 180 + 1 + pi].
      0 \<le> c \<and> c \<le> 4 * pi" unfolding e .
  then have b: "0 \<le> pi * 90 / 180 + 1 + pi \<and> pi * 90 / 180 + 1 + pi \<le> 4 * pi \<and>
   0 \<le> pi * (- 45) / 180 + pi \<and> pi * (- 45) / 180 + pi \<le> 4 * pi \<and>
   0 \<le> pi * 180 / 180 + 1 + pi \<and> pi * 180 / 180 + 1 + pi \<le> 4 * pi"
    by (simp only: list.set ball_simps)
  from h e b show ?thesis by blast
qed

section \<open>Properties of the correlation engine\<close>

lemma sum_squares_expand:
  "sum_list (map (\<lambda>(a, b). (x * a - y * b)\<^sup>2) ps) =
     x\<^sup>2 * sum_list (map (\<lambda>(a, b). a * a) ps) - 2 * x * y * sum_list (map (\<lambda>(a, b). a * b) ps)
     + y\<^sup>2 * sum_list (map (\<lambda>(a, b). b * b) ps)"
  for x y :: real
proof (induction ps)
  case Nil
  then show ?case by simp
next
  case (Cons p ps)
  obtain a b where p: "p = (a, b)" by (cases p)
  show ?case unfolding p using Cons.IH by (simp add: power2_eq_square algebra_simps)
qed

lemma sum_squares_zero:
  "sum_list (map (\<lambda>(a, b). b * b) ps) = 0 \<Longrightarrow> sum_list (map (\<lambda>(a, b). a * b) ps) = 0"
  for ps :: "(real \<times> real) list"
proof (induction ps)
  case Nil
  then show ?case by simp
next
  case (Cons p ps)
  obtain a b where p: "p = (a, b)" by (cases p)
  have n: "0 \<le> sum_list (map (\<lambda>(a, b). b * b) ps)"
    by (rule sum_list_nonneg) auto
  from Cons.prems p have "b * b + sum_list (map (\<lambda>(a, b). b * b) ps) = 0" by simp
  with n have "b * b = 0" "sum_list (map (\<lambda>(a, b). b * b) ps) = 0"
    by (simp_all add: add_nonneg_eq_0_iff)
  with Cons.IH p show ?case by simp
qed

lemma cauchy_schwarz_pairs:
  "(sum_list (map (\<lambda>(a, b). a * b) ps))\<^sup>2
     \<le> sum_list (map (\<lambda>(a, b). a * a) ps) * sum_list (map (\<lambda>(a, b). b * b) ps)"
  for ps :: "(real \<times> real) list"
proof -
  define A where "A = sum_list (map (\<lambda>(a, b). a * a) ps)"
  define B where "B = sum_list (map (\<lambda>(a, b). b * b) ps)"
  define C where "C = sum_list (map (\<lambda>(a, b). a * b) ps)"
  have B0: "0 \<le> B" unfolding B_def by (rule sum_list_nonneg) auto
  have A0: "0 \<le> A" unfolding A_def by (rule sum_list_nonneg) auto
  show ?thesis
  proof (cases "B = 0")
    case True
    then have "C = 0" unfolding B_def C_def by (rule sum_squares_zero)
    with True show ?thesis unfolding A_def[symmetric] B_def[symmetric] C_def[symmetric] by simp
  next
    case False
    with B0 have Bp: "0 < B" by simp
    have "0 \<le> sum_list (map (\<lambda>(a, b). (B * a - C * b)\<^sup>2) ps)"
      by (rule sum_list_nonneg) auto
    then have "0 \<le> B\<^sup>2 * A - 2 * B * C * C + C\<^sup>2 * B"
      unfolding sum_squares_expand A_def B_def C_def .
    then have "0 \<le> B * (A * B - C\<^sup>2)" by (simp add: power2_eq_square algebra_simps)
    with Bp have "0 \<le> A * B - C\<^sup>2" by (simp add: zero_le_mult_iff)
    then show ?thesis unfolding A_def[symmetric] B_def[symmetric] C_def[symmetric] by simp
  qed
qed

lemma zip_squares_le:
  "sum_list (map (\<lambda>(a, b). a * a) (zip xs ys)) \<le> sum_list (map (\<lambda>a. a * a) xs) \<and>
   sum_list (map (\<lambda>(a, b). b * b) (zip xs ys)) \<le> sum_list (map (\<lambda>a. a * a) ys)"
  for xs ys :: "real list"
proof (induction xs ys rule: list_induct2')
  case 1
  then show ?case by simp
next
  case (2 x xs)
  have "0 \<le> sum_list (map (\<lambda>a. a * a) (x # xs))" by (rule sum_list_nonneg) auto
  then show ?case by simp
next
  case (3 y ys)
  have "0 \<le> sum_list (map (\<lambda>a. a * a) (y # ys))" by (rule sum_list_nonneg) auto
  then show ?case by simp
next
  case (4 x xs y ys)
  then show ?case by simp
qed

lemma cauchy_schwarz_lists:
  "(sum_list (map2 (*) xs ys))\<^sup>2 \<le> sum_list (map (\<lambda>a. a * a) xs) * sum_list (map (\<lambda>a. a * a) ys)"
  for xs ys :: "real list"
proof -
  have "(sum_list (map2 (*) xs ys))\<^sup>2
      \<le> sum_list (map (\<lambda>(a, b). a * a) (zip xs ys)) * sum_list (map (\<lambda>(a, b). b * b) (zip xs ys))"
    using cauchy_schwarz_pairs[of "zip xs ys"] by simp
  also have "\<dots> \<le> sum_list (map (\<lambda>a. a * a) xs) * sum_list (map (\<lambda>a. a * a) ys)"
  proof (rule mult_mono)
    show "0 \<le> sum_list (map (\<lambda>a. a * a) xs)" by (rule sum_list_nonneg) auto
    show "0 \<le> sum_list (map (\<lambda>(a, b). b * b) (zip xs ys))" by (rule sum_list_nonneg) auto
  qed (simp_all add: zip_squares_le)
  finally show ?thesis .
qed

lemma corrcoef_range:
  "corrcoef xs ys = Finite r \<Longrightarrow> - 1 \<le> r \<and> r \<le> 1"
proof -
  assume a: "corrcoef xs ys = Finite r"
  define dx where "dx = map (\<lambda>x. x - mean xs) xs"
  define dy where "dy = map (\<lambda>y. y - mean ys) ys"
  define c where "c = sum_list (map2 (*) dx dy)"
  define vx where "vx = sum_list (map (\<lambda>a. a * a) dx)"
  define vy where "vy = sum_list (map (\<lambda>a. a * a) dy)"
  from a have nz: "vx \<noteq> 0" "vy \<noteq> 0" and r: "r = c / (sqrt vx * sqrt vy)"
    unfolding corrcoef_def Let_def dx_def[symmetric] dy_def[symmetric] c_def[symmetric]
      vx_def[symmetric] vy_def[symmetric]
    by (auto split: if_splits)
  have "0 \<le> vx" unfolding vx_def by (rule sum_list_nonneg) auto
  with nz have vxp: "0 < vx" by simp
  have "0 \<le> vy" unfolding vy_def by (rule sum_list_nonneg) auto
  with nz have vyp: "0 < vy" by simp
  have "c\<^sup>2 \<le> vx * vy" unfolding c_def vx_def vy_def by (rule cauchy_schwarz_lists)
  then have "sqrt (c\<^sup>2) \<le> sqrt (vx * vy)" by (rule real_sqrt_le_mono)
  then have le: "\<bar>c\<bar> \<le> sqrt vx * sqrt vy" by (simp add: real_sqrt_mult)
  have pos: "0 < sqrt vx * sqrt vy" using vxp vyp by simp
  define q where "q = sqrt vx * sqrt vy"
  from le pos have "\<bar>c\<bar> \<le> q" "0 < q" by (simp_all add: q_def)
  then have "- 1 \<le> c / q \<and> c / q \<le> 1" by (simp add: pos_le_divide_eq pos_divide_le_eq abs_le_iff)
  then show ?thesis unfolding r q_def .
qed

lemma corrVal_range: "- 1 \<le> corrVal (corrcoef xs ys) \<and> corrVal (corrcoef xs ys) \<le> 1"
  by (cases "corrcoef xs ys") (auto simp: corrVal_def dest: corrcoef_range)

lemma corrcoef_constant: "corrcoef (replicate n a) ys = NaN"
proof -
  have "sum_list (map (\<lambda>a. a * a) (map (\<lambda>x. x - mean (replicate n a)) (replicate n a))) = 0"
  proof (cases "n = 0")
    case True
    then show ?thesis by simp
  next
    case False
    then have "mean (replicate n a) = a" by (simp add: mean_def sum_list_replicate)
    then show ?thesis by (simp add: sum_list_replicate)
  qed
  then show ?thesis unfolding corrcoef_def Let_def by (simp only: simp_thms if_True)
qed


lemma kept_refl: "kept A d d"
  unfolding kept_def by auto

lemma kept_trans:
  assumes 1: "kept A d d1" and 2: "kept A d1 d2"
  shows "kept A d d2"
  unfolding kept_def
proof (intro conjI allI impI)
  fix s l show "series_at [d2] (0, s, l) = series_at [d] (0, s, l)"
    using 1 2 unfolding kept_def by simp
next
  fix s cl key assume "(s, cl, key) \<notin> A"
  then show "corr_series_at [d2] 0 s cl key = corr_series_at [d] 0 s cl key"
    using 1 2 unfolding kept_def by simp
next
  fix s cl key xs2 assume a: "corr_series_at [d2] 0 s cl key = Some xs2"
  with 2 obtain xs1 where x1: "corr_series_at [d1] 0 s cl key = Some xs1"
    "\<forall>x\<in>set xs2. x \<in> set xs1 \<or> in_range x"
    unfolding kept_def by blast
  with 1 obtain xs where x: "corr_series_at [d] 0 s cl key = Some xs"
    "\<forall>x\<in>set xs1. x \<in> set xs \<or> in_range x"
    unfolding kept_def by blast
  from x1(2) x(2) have "\<forall>x\<in>set xs2. x \<in> set xs \<or> in_range x" by blast
  with x(1) show "\<exists>xs. corr_series_at [d] 0 s cl key = Some xs \<and> (\<forall>x\<in>set xs2. x \<in> set xs \<or> in_range x)"
    by blast
next
  fix s l show "map_sum id entry_len (entry_at d2 s l) = map_sum id entry_len (entry_at d s l)"
    using 1 2 unfolding kept_def by simp
qed

lemma kept_long: "kept A d d' \<Longrightarrow> long d' s l = long d s l"
proof -
  assume "kept A d d'"
  then have e: "map_sum id entry_len (entry_at d' s l) = map_sum id entry_len (entry_at d s l)"
    unfolding kept_def by blast
  show ?thesis unfolding long_def using e
    by (cases "entry_at d' s l"; cases "entry_at d s l") auto
qed

lemma kept_mono: "kept A d d' \<Longrightarrow> A \<subseteq> B \<Longrightarrow> kept B d d'"
  unfolding kept_def by blast

lemma set_trim: "set (trim xs) \<subseteq> set xs"
  by (cases xs) (auto simp: trim_def)

lemma corr_append_kept:
  assumes a: "corr_append d s cl key v = Inr d'" and v: "in_range v" and m: "(s, cl, key) \<in> A"
  shows "kept A d d'"
proof -
  from a obtain sl where sl: "map_of d s = Some sl"
    by (auto simp: corr_append_def split: option.splits)
  with a obtain c where c: "map_of sl cl = Some (CorrMap c)"
    by (auto simp: corr_append_def split: option.splits entry.splits)
  with a sl obtain xs where xs: "map_of c key = Some xs"
    by (auto simp: corr_append_def split: option.splits)
  define c' where "c' = AList.update key (trim (xs @ [v])) c"
  define sl' where "sl' = AList.update cl (CorrMap c') sl"
  from a sl c xs have d': "d' = AList.update s sl' d"
    by (simp add: corr_append_def c'_def sl'_def)
  have md: "map_of d' = (map_of d)(s \<mapsto> sl')" unfolding d' by (rule update_conv')
  have msl: "map_of sl' = (map_of sl)(cl \<mapsto> CorrMap c')" unfolding sl'_def by (rule update_conv')
  have mc: "map_of c' = (map_of c)(key \<mapsto> trim (xs @ [v]))" unfolding c'_def by (rule update_conv')
  have ser: "series_at [d'] (0, s', l) = series_at [d] (0, s', l)" for s' l
    using sl c by (simp add: series_at_def md msl)
  have cor: "corr_series_at [d'] 0 s' cl' key' =
       (if (s', cl', key') = (s, cl, key) then Some (trim (xs @ [v])) else corr_series_at [d] 0 s' cl' key')"
    for s' cl' key'
    using sl c xs by (simp add: corr_series_at_def md msl mc)
  have old: "corr_series_at [d] 0 s cl key = Some xs"
    using sl c xs by (simp add: corr_series_at_def)
  from xs have "key \<in> fst ` set c" by (rule map_of_SomeD[THEN imageI, of _ _ _ fst, simplified])
  then have "length c' = length c" unfolding c'_def
    by (induction c) (auto split: if_splits)
  then have len: "map_sum id entry_len (entry_at d' s' l) = map_sum id entry_len (entry_at d s' l)" for s' l
    using sl c by (simp add: entry_at_def md msl entry_len_def)
  show ?thesis unfolding kept_def
  proof (intro conjI allI impI)
    fix s' l show "series_at [d'] (0, s', l) = series_at [d] (0, s', l)" by (rule ser)
  next
    fix s' cl' key' assume "(s', cl', key') \<notin> A"
    with m have "(s', cl', key') \<noteq> (s, cl, key)" by blast
    then show "corr_series_at [d'] 0 s' cl' key' = corr_series_at [d] 0 s' cl' key'"
      unfolding cor by (simp only: if_False)
  next
    fix s' cl' key' xs' assume b: "corr_series_at [d'] 0 s' cl' key' = Some xs'"
    show "\<exists>xs. corr_series_at [d] 0 s' cl' key' = Some xs \<and> (\<forall>x\<in>set xs'. x \<in> set xs \<or> in_range x)"
    proof (cases "(s', cl', key') = (s, cl, key)")
      case True
      with b cor[of s' cl' key'] have "xs' = trim (xs @ [v])" by simp
      then have "set xs' \<subseteq> insert v (set xs)" using set_trim[of "xs @ [v]"] by auto
      with v have "\<forall>x\<in>set xs'. x \<in> set xs \<or> in_range x" by blast
      with old True show ?thesis by simp
    next
      case False
      with b cor[of s' cl' key'] have "corr_series_at [d] 0 s' cl' key' = Some xs'" by auto
      then show ?thesis by blast
    qed
  next
    fix s' l show "map_sum id entry_len (entry_at d' s' l) = map_sum id entry_len (entry_at d s' l)"
      by (rule len)
  qed
qed

lemma in_range_corrVal: "in_range (corrVal (corrcoef xs ys))"
  unfolding in_range_def by (rule corrVal_range)

lemma self_labels_kept:
  "self_labels s1 s2 ls d out = (r, d') \<Longrightarrow> \<forall>(l, c)\<in>set out. in_range c \<Longrightarrow>
     kept {(s, cl, key). s = s1 \<and> key = s2 \<and>
             (\<exists>l. \<not> skipped l \<and> long d s1 l \<and> long d s2 l \<and> cl = correlation_label l)} d d' \<and>
     (\<forall>out'. r = Inr out' \<longrightarrow> (\<forall>(l, c)\<in>set out'. in_range c))"
proof (induction ls arbitrary: d out)
  case Nil
  then show ?case by (auto simp: kept_refl)
next
  case (Cons label rest)
  let ?A = "\<lambda>d. {(s, cl, key). s = s1 \<and> key = s2 \<and>
             (\<exists>l. \<not> skipped l \<and> long d s1 l \<and> long d s2 l \<and> cl = correlation_label l)}"
  show ?case
  proof (cases "skipped label")
    case True
    with Cons.prems(1) have "self_labels s1 s2 rest d out = (r, d')" by simp
    from Cons.IH[OF this Cons.prems(2)] show ?thesis .
  next
    case False
    note ns = this
    show ?thesis
    proof (cases "entry_at d s1 label")
      case (Inl e)
      with ns Cons.prems(1) show ?thesis by (auto simp: kept_refl)
    next
      case (Inr e1)
      note e1 = this
      show ?thesis
      proof (cases "entry_at d s2 label")
        case (Inl e)
        with ns e1 Cons.prems(1) show ?thesis by (auto simp: kept_refl)
      next
        case (Inr e2)
        note e2 = this
        show ?thesis
        proof (cases "entry_len e1 < 32 \<or> entry_len e2 < 32")
          case True
          with ns e1 e2 Cons.prems(1) have "self_labels s1 s2 rest d out = (r, d')" by simp
          from Cons.IH[OF this Cons.prems(2)] show ?thesis .
        next
          case False
          note long = this
          show ?thesis
          proof (cases "\<exists>xs ys. e1 = Series xs \<and> e2 = Series ys")
            case False
            with ns e1 e2 long Cons.prems(1) have "r = Inl TypeError \<and> d' = d"
              by (cases e1; cases e2) auto
            then show ?thesis by (simp add: kept_refl)
          next
            case True
            then obtain xs ys where s: "e1 = Series xs" "e2 = Series ys" by blast
            define v where "v = corrVal (corrcoef (window xs) (window ys))"
            have rv: "in_range v" unfolding v_def by (rule in_range_corrVal)
            show ?thesis
            proof (cases "corr_append d s1 (correlation_label label) s2 v")
              case (Inl e)
              with ns e1 e2 long s Cons.prems(1) have "r = Inl e \<and> d' = d"
                by (simp add: v_def Let_def)
              then show ?thesis by (simp add: kept_refl)
            next
              case (Inr d1)
              with ns e1 e2 long s Cons.prems(1)
              have run: "self_labels s1 s2 rest d1 (out @ [(label, v)]) = (r, d')"
                by (simp add: v_def Let_def)
              from Cons.prems(2) rv have "\<forall>(l, c)\<in>set (out @ [(label, v)]). in_range c" by auto
              from Cons.IH[OF run this] have k2: "kept (?A d1) d1 d'"
                and o: "\<forall>out'. r = Inr out' \<longrightarrow> (\<forall>(l, c)\<in>set out'. in_range c)" by blast+
              have "long d s1 label" "long d s2 label"
                using e1 e2 long unfolding long_def by auto
              then have "(s1, correlation_label label, s2) \<in> ?A d" using ns by blast
              with Inr rv have k1: "kept (?A d) d d1" by (rule corr_append_kept)
              then have "?A d1 = ?A d" by (simp add: kept_long)
              with k2 have "kept (?A d) d1 d'" by simp
              with k1 o show ?thesis using kept_trans by blast
            qed
          qed
        qed
      qed
    qed
  qed
qed


lemma self_keys_kept: "kept A d d' \<Longrightarrow> self_keys ps d' = self_keys ps d"
  unfolding self_keys_def by (simp add: kept_long)

lemma self_pairs_kept:
  "self_pairs ps d out = (r, d') \<Longrightarrow> \<forall>(l, c)\<in>set out. in_range c \<Longrightarrow>
     kept (self_keys ps d) d d' \<and> (\<forall>out'. r = Inr out' \<longrightarrow> (\<forall>(l, c)\<in>set out'. in_range c))"
proof (induction ps arbitrary: d out)
  case Nil
  then show ?case by (auto simp: kept_refl)
next
  case (Cons p ps)
  obtain i j where p: "p = (i, j)" by (cases p)
  show ?case
  proof (cases "map_of d (snsr i)")
    case None
    with Cons.prems(1) p show ?thesis by (auto simp: kept_refl)
  next
    case (Some sl)
    obtain r1 d1 where l: "self_labels (snsr i) (snsr j) (map fst sl) d out = (r1, d1)"
      by (cases "self_labels (snsr i) (snsr j) (map fst sl) d out")
    from self_labels_kept[OF l Cons.prems(2)]
    have k1: "kept {(s, cl, key). s = snsr i \<and> key = snsr j \<and>
                 (\<exists>l. \<not> skipped l \<and> long d (snsr i) l \<and> long d (snsr j) l \<and> cl = correlation_label l)} d d1"
      and o1: "\<forall>out'. r1 = Inr out' \<longrightarrow> (\<forall>(l, c)\<in>set out'. in_range c)" by blast+
    have "{(s, cl, key). s = snsr i \<and> key = snsr j \<and>
                 (\<exists>l. \<not> skipped l \<and> long d (snsr i) l \<and> long d (snsr j) l \<and> cl = correlation_label l)}
            \<subseteq> self_keys (p # ps) d"
      unfolding self_keys_def p by auto
    with k1 have k1': "kept (self_keys (p # ps) d) d d1" by (rule kept_mono)
    show ?thesis
    proof (cases r1)
      case (Inl e)
      with Cons.prems(1) p Some l have "r = Inl e" "d' = d1" by simp_all
      with k1' show ?thesis by simp
    next
      case (Inr out1)
      with Cons.prems(1) p Some l have run: "self_pairs ps d1 out1 = (r, d')" by simp
      from o1 Inr have "\<forall>(l, c)\<in>set out1. in_range c" by simp
      from Cons.IH[OF run this] have k2: "kept (self_keys ps d1) d1 d'"
        and o: "\<forall>out'. r = Inr out' \<longrightarrow> (\<forall>(l, c)\<in>set out'. in_range c)" by blast+
      from k1' have "self_keys ps d1 = self_keys ps d" by (rule self_keys_kept)
      moreover have "self_keys ps d \<subseteq> self_keys (p # ps) d" unfolding self_keys_def by auto
      ultimately have "kept (self_keys (p # ps) d) d1 d'" using k2 kept_mono by metis
      with k1' o show ?thesis using kept_trans by blast
    qed
  qed
qed

lemma self_dancers_kept:
  "self_dancers n st out = (r, st') \<Longrightarrow> \<forall>(l, c)\<in>set out. in_range c \<Longrightarrow>
     list_all2 (\<lambda>d d'. kept (self_keys (sensor_pairs n) d) d d') st st' \<and>
     (\<forall>out'. r = Inr out' \<longrightarrow> (\<forall>(l, c)\<in>set out'. in_range c))"
proof (induction st arbitrary: out r st')
  case Nil
  then show ?case by auto
next
  case (Cons d rest)
  obtain r1 d1 where l: "self_pairs (sensor_pairs n) d out = (r1, d1)"
    by (cases "self_pairs (sensor_pairs n) d out")
  from self_pairs_kept[OF l Cons.prems(2)]
  have k1: "kept (self_keys (sensor_pairs n) d) d d1"
    and o1: "\<forall>out'. r1 = Inr out' \<longrightarrow> (\<forall>(l, c)\<in>set out'. in_range c)" by blast+
  have rr: "list_all2 (\<lambda>d d'. kept (self_keys (sensor_pairs n) d) d d') rest rest"
    by (simp add: list_all2_refl kept_refl)
  show ?case
  proof (cases r1)
    case (Inl e)
    with Cons.prems(1) l have "r = Inl e" "st' = d1 # rest" by simp_all
    with k1 rr show ?thesis by simp
  next
    case (Inr out1)
    obtain r2 rest2 where l2: "self_dancers n rest out1 = (r2, rest2)"
      by (cases "self_dancers n rest out1")
    with Cons.prems(1) l Inr have e: "r = r2" "st' = d1 # rest2" by simp_all
    from o1 Inr have "\<forall>(l, c)\<in>set out1. in_range c" by simp
    from Cons.IH[OF l2 this] e k1 show ?thesis by simp
  qed
qed

lemma others_labels_kept:
  "others_labels k1 s1 k2 s2 idx2 ls st out = (r, st') \<Longrightarrow> k1 < length st \<Longrightarrow>
   \<forall>(l, c)\<in>set out. in_range c \<Longrightarrow>
     length st' = length st \<and> (\<forall>k. k \<noteq> k1 \<longrightarrow> st' ! k = st ! k) \<and>
     kept {(s, cl, key). s = s1 \<and> key = dancer_key (idx2 + 1) \<and>
             (\<exists>l. \<not> skipped l \<and> long (st ! k1) s1 l \<and> long (st ! k2) s2 l \<and> cl = correlation_label l)}
       (st ! k1) (st' ! k1) \<and>
     (\<forall>out'. r = Inr out' \<longrightarrow> (\<forall>(l, c)\<in>set out'. in_range c))"
proof (induction ls arbitrary: st out)
  case Nil
  then show ?case by (auto simp: kept_refl)
next
  case (Cons label rest)
  let ?A = "\<lambda>st. {(s, cl, key). s = s1 \<and> key = dancer_key (idx2 + 1) \<and>
             (\<exists>l. \<not> skipped l \<and> long (st ! k1) s1 l \<and> long (st ! k2) s2 l \<and> cl = correlation_label l)}"
  note run0 = Cons.prems(1) and k1 = Cons.prems(2) and rng = Cons.prems(3)
  show ?case
  proof (cases "skipped label")
    case True
    with run0 have "others_labels k1 s1 k2 s2 idx2 rest st out = (r, st')" by simp
    from Cons.IH[OF this k1 rng] show ?thesis .
  next
    case False
    note ns = this
    show ?thesis
    proof (cases "entry_at (st ! k1) s1 label")
      case (Inl e)
      with ns run0 show ?thesis by (auto simp: kept_refl)
    next
      case (Inr e1)
      note e1 = this
      show ?thesis
      proof (cases "entry_at (st ! k2) s2 label")
        case (Inl e)
        with ns e1 run0 show ?thesis by (auto simp: kept_refl)
      next
        case (Inr e2)
        note e2 = this
        show ?thesis
        proof (cases "entry_len e1 < 32 \<or> entry_len e2 < 32")
          case True
          with ns e1 e2 run0 have "others_labels k1 s1 k2 s2 idx2 rest st out = (r, st')" by simp
          from Cons.IH[OF this k1 rng] show ?thesis .
        next
          case False
          note long = this
          show ?thesis
          proof (cases "\<exists>xs ys. e1 = Series xs \<and> e2 = Series ys")
            case False
            with ns e1 e2 long run0 have "r = Inl TypeError \<and> st' = st"
              by (cases e1; cases e2) auto
            then show ?thesis by (simp add: kept_refl)
          next
            case True
            then obtain xs ys where s: "e1 = Series xs" "e2 = Series ys" by blast
            define v where "v = corrVal (corrcoef (window xs) (window ys))"
            have rv: "in_range v" unfolding v_def by (rule in_range_corrVal)
            show ?thesis
            proof (cases "corr_append (st ! k1) s1 (correlation_label label) (dancer_key (idx2 + 1)) v")
              case (Inl e)
              with ns e1 e2 long s run0 have "r = Inl e \<and> st' = st"
                by (simp add: v_def Let_def)
              then show ?thesis by (simp add: kept_refl)
            next
              case (Inr d1)
              with ns e1 e2 long s run0
              have run: "others_labels k1 s1 k2 s2 idx2 rest (st[k1 := d1]) (out @ [(label, v)]) = (r, st')"
                by (simp add: v_def Let_def)
              from rng rv have rng': "\<forall>(l, c)\<in>set (out @ [(label, v)]). in_range c" by auto
              from k1 have k1': "k1 < length (st[k1 := d1])" by simp
              have "long (st ! k1) s1 label" "long (st ! k2) s2 label"
                using e1 e2 long unfolding long_def by auto
              then have "(s1, correlation_label label, dancer_key (idx2 + 1)) \<in> ?A st" using ns by blast
              with Inr rv have kk1: "kept (?A st) (st ! k1) d1" by (rule corr_append_kept)
              have l1: "long ((st[k1 := d1]) ! k1) s l = long (st ! k1) s l" for s l
                using k1 kk1 by (simp add: kept_long)
              have l2: "long ((st[k1 := d1]) ! k2) s l = long (st ! k2) s l" for s l
                using k1 kk1 by (cases "k2 = k1") (simp_all add: kept_long)
              have A: "?A (st[k1 := d1]) = ?A st" by (simp only: l1 l2)
              from Cons.IH[OF run k1' rng'] k1
              have len: "length st' = length st"
                and oth: "\<forall>k. k \<noteq> k1 \<longrightarrow> st' ! k = st ! k"
                and k2: "kept (?A (st[k1 := d1])) d1 (st' ! k1)"
                and o: "\<forall>out'. r = Inr out' \<longrightarrow> (\<forall>(l, c)\<in>set out'. in_range c)"
                by auto
              from k2 A have "kept (?A st) d1 (st' ! k1)" by simp
              with kk1 have "kept (?A st) (st ! k1) (st' ! k1)" by (rule kept_trans)
              with len oth o show ?thesis by blast
            qed
          qed
        qed
      qed
    qed
  qed
qed

lemma kept_store_refl: "kept_store A st st"
  by (simp add: kept_store_def kept_refl)

lemma kept_store_trans:
  "kept_store A st st1 \<Longrightarrow> kept_store A st1 st2 \<Longrightarrow> kept_store A st st2"
  unfolding kept_store_def using kept_trans by auto

lemma kept_store_mono:
  assumes "kept_store A st st'" "A \<subseteq> B"
  shows "kept_store B st st'"
  unfolding kept_store_def
proof (intro conjI allI impI)
  show "length st' = length st" using assms(1) by (simp add: kept_store_def)
next
  fix k assume "k < length st"
  with assms(1) have "kept {(s, cl, key). (k, s, cl, key) \<in> A} (st ! k) (st' ! k)"
    by (simp add: kept_store_def)
  moreover have "{(s, cl, key). (k, s, cl, key) \<in> A} \<subseteq> {(s, cl, key). (k, s, cl, key) \<in> B}"
    using assms(2) by auto
  ultimately show "kept {(s, cl, key). (k, s, cl, key) \<in> B} (st ! k) (st' ! k)" by (rule kept_mono)
qed

lemma dancer_index_less: "dancer_index len idx = Inr k \<Longrightarrow> k < len"
  by (auto simp: dancer_index_def split: if_splits)

lemma kept_store_long:
  "kept_store A st st' \<Longrightarrow> k < length st \<Longrightarrow> long (st' ! k) s l = long (st ! k) s l"
  unfolding kept_store_def using kept_long by blast

lemma others_keys_kept:
  assumes "kept_store A st st'"
  shows "others_keys st' ps = others_keys st ps"
proof -
  from assms have len: "length st' = length st" by (simp add: kept_store_def)
  have l: "long (st' ! k) s l = long (st ! k) s l" if "dancer_index (length st) idx = Inr k" for k idx s l
    using kept_store_long[OF assms dancer_index_less[OF that]] .
  have l2: "long (st ! k) s l = long (st' ! k) s l" if "dancer_index (length st) idx = Inr k" for k idx s l
    using l[OF that] by simp
  show ?thesis
  proof (intro set_eqI iffI)
    fix x assume "x \<in> others_keys st' ps"
    then obtain k s cl key l1 l2 k2 l where x: "x = (k, s, cl, key)"
      and f: "(l1, l2) \<in> set ps" "\<not> skipped l"
        "dancer_index (length st) (round_tenth l1) = Inr k"
        "dancer_index (length st) (round_tenth l2) = Inr k2"
        "long (st' ! k) (snsr (l1 mod 10)) l" "long (st' ! k2) (snsr (l2 mod 10)) l"
        "s = snsr (l1 mod 10)" "cl = correlation_label l" "key = dancer_key (round_tenth l2 + 1)"
      unfolding others_keys_def len by blast
    from f(5) have a: "long (st ! k) (snsr (l1 mod 10)) l" unfolding l[OF f(3)] .
    from f(6) have b: "long (st ! k2) (snsr (l2 mod 10)) l" unfolding l[OF f(4)] .
    from f(1-4) a b f(7-9) show "x \<in> others_keys st ps" unfolding x others_keys_def by blast
  next
    fix x assume "x \<in> others_keys st ps"
    then obtain k s cl key l1 l2 k2 l where x: "x = (k, s, cl, key)"
      and f: "(l1, l2) \<in> set ps" "\<not> skipped l"
        "dancer_index (length st) (round_tenth l1) = Inr k"
        "dancer_index (length st) (round_tenth l2) = Inr k2"
        "long (st ! k) (snsr (l1 mod 10)) l" "long (st ! k2) (snsr (l2 mod 10)) l"
        "s = snsr (l1 mod 10)" "cl = correlation_label l" "key = dancer_key (round_tenth l2 + 1)"
      unfolding others_keys_def by blast
    from f(5) have a: "long (st' ! k) (snsr (l1 mod 10)) l" unfolding l2[OF f(3)] .
    from f(6) have b: "long (st' ! k2) (snsr (l2 mod 10)) l" unfolding l2[OF f(4)] .
    from f(1-4) a b f(7-9) show "x \<in> others_keys st' ps" unfolding x others_keys_def len by blast
  qed
qed

lemma others_combos_kept:
  "others_combos ps st out = (r, st') \<Longrightarrow> \<forall>(l, c)\<in>set out. in_range c \<Longrightarrow>
     kept_store (others_keys st ps) st st' \<and>
     (\<forall>out'. r = Inr out' \<longrightarrow> (\<forall>(l, c)\<in>set out'. in_range c))"
proof (induction ps arbitrary: st out)
  case Nil
  then show ?case by (auto simp: kept_store_refl)
next
  case (Cons p ps)
  obtain l1 l2 where p: "p = (l1, l2)" by (cases p)
  note run0 = Cons.prems(1) and rng = Cons.prems(2)
  have sub: "others_keys st ps \<subseteq> others_keys st (p # ps)"
    unfolding others_keys_def by auto
  show ?case
  proof (cases "l1 = l2")
    case True
    with run0 p have "others_combos ps st out = (r, st')" by simp
    from Cons.IH[OF this rng] sub show ?thesis using kept_store_mono by blast
  next
    case False
    note ne = this
    show ?thesis
    proof (cases "dancer_index (length st) (round_tenth l1)")
      case (Inl e)
      with ne run0 p show ?thesis by (auto simp: kept_store_refl)
    next
      case (Inr k1)
      note k1 = this
      show ?thesis
      proof (cases "dancer_index (length st) (round_tenth l2)")
        case (Inl e)
        with ne k1 run0 p show ?thesis by (auto simp: kept_store_refl)
      next
        case (Inr k2)
        note k2 = this
        show ?thesis
        proof (cases "map_of (st ! k1) (snsr (l1 mod 10))")
          case None
          with ne k1 k2 run0 p show ?thesis by (auto simp: kept_store_refl)
        next
          case (Some sl)
          obtain r1 st1 where l: "others_labels k1 (snsr (l1 mod 10)) k2 (snsr (l2 mod 10))
                               (round_tenth l2) (map fst sl) st out = (r1, st1)"
            by (cases "others_labels k1 (snsr (l1 mod 10)) k2 (snsr (l2 mod 10))
                               (round_tenth l2) (map fst sl) st out")
          from k1 have k1l: "k1 < length st" by (rule dancer_index_less)
          from others_labels_kept[OF l k1l rng]
          have len: "length st1 = length st"
            and oth: "\<forall>k. k \<noteq> k1 \<longrightarrow> st1 ! k = st ! k"
            and kk: "kept {(s, cl, key). s = snsr (l1 mod 10) \<and> key = dancer_key (round_tenth l2 + 1) \<and>
                       (\<exists>l. \<not> skipped l \<and> long (st ! k1) (snsr (l1 mod 10)) l \<and>
                            long (st ! k2) (snsr (l2 mod 10)) l \<and> cl = correlation_label l)}
                     (st ! k1) (st1 ! k1)"
            and o1: "\<forall>out'. r1 = Inr out' \<longrightarrow> (\<forall>(l, c)\<in>set out'. in_range c)"
            by blast+
          have ks1: "kept_store (others_keys st (p # ps)) st st1"
            unfolding kept_store_def
          proof (intro conjI allI impI)
            show "length st1 = length st" by (rule len)
          next
            fix k assume "k < length st"
            show "kept {(s, cl, key). (k, s, cl, key) \<in> others_keys st (p # ps)} (st ! k) (st1 ! k)"
            proof (cases "k = k1")
              case True
              have "{(s, cl, key). s = snsr (l1 mod 10) \<and> key = dancer_key (round_tenth l2 + 1) \<and>
                       (\<exists>l. \<not> skipped l \<and> long (st ! k1) (snsr (l1 mod 10)) l \<and>
                            long (st ! k2) (snsr (l2 mod 10)) l \<and> cl = correlation_label l)}
                    \<subseteq> {(s, cl, key). (k1, s, cl, key) \<in> others_keys st (p # ps)}"
                unfolding others_keys_def p using k1 k2 by auto
              with kk True show ?thesis using kept_mono by blast
            next
              case False
              with oth show ?thesis by (simp add: kept_refl)
            qed
          qed
          show ?thesis
          proof (cases r1)
            case (Inl e)
            with ne k1 k2 Some l run0 p have "r = Inl e" "st' = st1" by simp_all
            with ks1 show ?thesis by simp
          next
            case (Inr out1)
            with ne k1 k2 Some l run0 p have run: "others_combos ps st1 out1 = (r, st')" by simp
            from o1 Inr have "\<forall>(l, c)\<in>set out1. in_range c" by simp
            from Cons.IH[OF run this]
            have "kept_store (others_keys st1 ps) st1 st'"
              and o: "\<forall>out'. r = Inr out' \<longrightarrow> (\<forall>(l, c)\<in>set out'. in_range c)" by simp_all
            moreover have "others_keys st1 ps = others_keys st ps" using ks1 by (rule others_keys_kept)
            ultimately have "kept_store (others_keys st (p # ps)) st1 st'"
              using sub kept_store_mono by metis
            with ks1 o show ?thesis using kept_store_trans by blast
          qed
        qed
      qed
    qed
  qed
qed

lemma list_all2_kept_store:
  "list_all2 (\<lambda>d d'. kept (A d) d d') st st' \<Longrightarrow>
     kept_store {(k, s, cl, key). k < length st \<and> (s, cl, key) \<in> A (st ! k)} st st'"
  by (simp add: kept_store_def list_all2_conv_all_nth)


lemma corr_series_at_nth:
  "corr_series_at st k s cl key = (if length st \<le> k then None else corr_series_at [st ! k] 0 s cl key)"
  by (simp add: corr_series_at_def)


lemma kept_store_corr_frame:
  assumes "kept_store A st st'" "corr_series_at st' k s cl key \<noteq> corr_series_at st k s cl key"
  shows "(k, s, cl, key) \<in> A"
proof (rule ccontr)
  assume n: "(k, s, cl, key) \<notin> A"
  show False
  proof (cases "k < length st")
    case True
    with assms(1) have "kept {(s, cl, key). (k, s, cl, key) \<in> A} (st ! k) (st' ! k)"
      by (simp add: kept_store_def)
    with n have "corr_series_at [st' ! k] 0 s cl key = corr_series_at [st ! k] 0 s cl key"
      unfolding kept_def by simp
    with assms True show False
      unfolding corr_series_at_nth[of st'] corr_series_at_nth[of st] by (simp add: kept_store_def)
  next
    case False
    with assms show False
      unfolding corr_series_at_nth[of st'] corr_series_at_nth[of st] by (simp add: kept_store_def)
  qed
qed

lemma kept_store_corr_range:
  assumes "kept_store A st st'" "corr_series_at st' k s cl key = Some xs'"
  shows "\<exists>xs. corr_series_at st k s cl key = Some xs \<and> (\<forall>x\<in>set xs'. x \<in> set xs \<or> in_range x)"
proof -
  from assms(2) have k: "k < length st'" by (simp add: corr_series_at_def split: if_splits)
  with assms(1) have k': "k < length st" and
    kk: "kept {(s, cl, key). (k, s, cl, key) \<in> A} (st ! k) (st' ! k)"
    by (simp_all add: kept_store_def)
  from assms(2) k have "corr_series_at [st' ! k] 0 s cl key = Some xs'"
    unfolding corr_series_at_nth[of st'] by simp
  with kk obtain xs where "corr_series_at [st ! k] 0 s cl key = Some xs"
    "\<forall>x\<in>set xs'. x \<in> set xs \<or> in_range x"
    unfolding kept_def by blast
  with k' show ?thesis unfolding corr_series_at_nth[of st] by simp
qed




lemma snsr_2: "snsr 2 = ''snsr_2''"
  by (simp add: snsr_def str_nat.simps digit_char_def)

lemma dancer_key_3: "dancer_key 3 = ''dancer_3''"
  by (simp add: dancer_key_def str_nat.simps digit_char_def)

lemma combos_keys:
  "(k, s, cl, key) \<in> others_keys st correlation_others_combos \<Longrightarrow>
     k = 0 \<and> s = ''snsr_2'' \<and> key = ''dancer_3'' \<and>
     (\<exists>l. \<not> skipped l \<and> long (st ! 0) ''snsr_2'' l \<and> long (st ! 1) ''snsr_2'' l \<and> cl = correlation_label l)"
proof -
  have r: "round_tenth 12 = 1" "round_tenth 22 = 2" by (simp_all add: round_tenth_def)
  assume "(k, s, cl, key) \<in> others_keys st correlation_others_combos"
  then obtain l k2 where l: "\<not> skipped l" "dancer_index (length st) 1 = Inr k"
      "dancer_index (length st) 2 = Inr k2" "long (st ! k) (snsr 2) l" "long (st ! k2) (snsr 2) l"
      "s = snsr 2" "cl = correlation_label l" "key = dancer_key 3"
    unfolding others_keys_def correlation_others_combos_def by (auto simp: r)
  from l(2) have "k = 0" by (simp add: dancer_index_def split: if_splits)
  moreover from l(3) have "k2 = 1" by (auto simp: dancer_index_def split: if_splits)
  ultimately show ?thesis using l by (auto simp: snsr_2 dancer_key_3)
qed

lemma self_kept_store:
  assumes "calculate_correlation_self n st = (r, st')"
  shows "kept_store {(k, s, cl, key). k < length st \<and> (s, cl, key) \<in> self_keys (sensor_pairs n) (st ! k)} st st'"
    and "\<forall>out. r = Inr out \<longrightarrow> (\<forall>(l, c)\<in>set out. in_range c)"
  using self_dancers_kept[of n st "[]" r st'] assms
    list_all2_kept_store[of "self_keys (sensor_pairs n)" st st']
  by (auto simp: calculate_correlation_self_def)

lemma others_kept_store:
  assumes "calculate_correlation_others st = (r, st')"
  shows "kept_store (others_keys st correlation_others_combos) st st'"
    and "\<forall>out. r = Inr out \<longrightarrow> (\<forall>(l, c)\<in>set out. in_range c)"
  using others_combos_kept[of correlation_others_combos st "[]" r st'] assms
  by (auto simp: calculate_correlation_others_def)

text \<open>
  C5.  The value \<open>corrVal\<close> the code keeps for a pair of windows lies in \<open>[-1, 1]\<close>, and is
  0 when the Pearson coefficient is undefined.  Every coefficient that
  \<open>calculate_correlation_self\<close> or \<open>calculate_correlation_others\<close> returns lies in
  \<open>[-1, 1]\<close>, and every element of a stored correlation series afterwards was in that
  series before or lies in \<open>[-1, 1]\<close>.  (Values are reals here, so not-a-number and
  infinity can only arise as the undefined coefficient, which \<open>corrVal\<close> replaces by 0.)
\<close>

theorem correlation_values_in_range:
  "(- 1 \<le> corrVal (corrcoef xs ys) \<and> corrVal (corrcoef xs ys) \<le> 1) \<and>
   (corrcoef xs ys = NaN \<longrightarrow> corrVal (corrcoef xs ys) = 0) \<and>
   (calculate_correlation_self n st = (r, st') \<or> calculate_correlation_others st = (r, st') \<longrightarrow>
      (\<forall>out. r = Inr out \<longrightarrow> (\<forall>(l, c)\<in>set out. - 1 \<le> c \<and> c \<le> 1)) \<and>
      (\<forall>k s cl key new. corr_series_at st' k s cl key = Some new \<longrightarrow>
          (\<exists>old. corr_series_at st k s cl key = Some old \<and>
             (\<forall>x\<in>set new. x \<in> set old \<or> (- 1 \<le> x \<and> x \<le> 1)))))"
proof (intro conjI impI)
  show "- 1 \<le> corrVal (corrcoef xs ys)" "corrVal (corrcoef xs ys) \<le> 1"
    using corrVal_range[of xs ys] by simp_all
next
  assume "corrcoef xs ys = NaN" then show "corrVal (corrcoef xs ys) = 0" by (simp add: corrVal_def)
next
  assume a: "calculate_correlation_self n st = (r, st') \<or> calculate_correlation_others st = (r, st')"
  have "\<exists>A. kept_store A st st' \<and> (\<forall>out. r = Inr out \<longrightarrow> (\<forall>(l, c)\<in>set out. in_range c))"
  proof (rule disjE[OF a])
    assume "calculate_correlation_self n st = (r, st')"
    from self_kept_store[OF this] show ?thesis by blast
  next
    assume "calculate_correlation_others st = (r, st')"
    from others_kept_store[OF this] show ?thesis by blast
  qed
  then obtain A where k: "kept_store A st st'"
    and o: "\<forall>out. r = Inr out \<longrightarrow> (\<forall>(l, c)\<in>set out. in_range c)"
    by blast
  from o show "\<forall>out. r = Inr out \<longrightarrow> (\<forall>(l, c)\<in>set out. - 1 \<le> c \<and> c \<le> 1)"
    by (simp add: in_range_def)
  from k show "\<forall>k s cl key new. corr_series_at st' k s cl key = Some new \<longrightarrow>
          (\<exists>old. corr_series_at st k s cl key = Some old \<and>
             (\<forall>x\<in>set new. x \<in> set old \<or> (- 1 \<le> x \<and> x \<le> 1)))"
    using kept_store_corr_range[OF k] by (simp add: in_range_def)
qed



lemma snsr_Suc0: "snsr (Suc 0) = ''snsr_1''"
  by (simp add: snsr_def str_nat.simps digit_char_def)

lemma sensor_pairs_2: "sensor_pairs 2 = [(Suc 0, 2)]"
  by code_simp

lemma two_sensors_self:
  "calculate_correlation_self 2 two_sensors = (Inr [(''acc_x'', 0)], two_sensors_after)"
  by (simp add: calculate_correlation_self_def two_sensors_def two_sensors_after_def sensor_pairs_2
        snsr_Suc0 snsr_2 skipped_def entry_at_def entry_len_def window_def corrcoef_constant corrVal_def
        corr_append_def correlation_label_def trim_def)


theorem correlation_values_in_range_witness:
  "corrcoef (replicate 32 1) (replicate 32 1) = NaN \<and>
   corrVal (corrcoef (replicate 32 1) (replicate 32 1)) = 0 \<and>
   calculate_correlation_self 2 two_sensors = (Inr [(''acc_x'', 0)], two_sensors_after) \<and>
   - 1 \<le> (0::real) \<and> (0::real) \<le> 1 \<and>
   corr_series_at two_sensors_after 0 ''snsr_1'' ''correlation_acc_x'' ''snsr_2'' = Some [0] \<and>
   corr_series_at two_sensors 0 ''snsr_1'' ''correlation_acc_x'' ''snsr_2'' = Some []"
proof -
  have n: "corrcoef (replicate 32 1) (replicate 32 1) = NaN" by (rule corrcoef_constant)
  note t = correlation_values_in_range[where xs = "replicate 32 1" and ys = "replicate 32 1"
      and n = 2 and st = two_sensors and r = "Inr [(''acc_x'', 0)]" and st' = two_sensors_after]
  from t n have z: "corrVal (corrcoef (replicate 32 1) (replicate 32 1)) = 0" by blast
  from t two_sensors_self have "\<forall>(l, c)\<in>set [(''acc_x'', 0::real)]. - 1 \<le> c \<and> c \<le> 1" by blast
  then have o: "- 1 \<le> (0::real) \<and> (0::real) \<le> 1" by simp
  have a: "corr_series_at two_sensors_after 0 ''snsr_1'' ''correlation_acc_x'' ''snsr_2'' = Some [0]"
    by (simp add: corr_series_at_def two_sensors_after_def)
  have b: "corr_series_at two_sensors 0 ''snsr_1'' ''correlation_acc_x'' ''snsr_2'' = Some []"
    by (simp add: corr_series_at_def two_sensors_def)
  from n z two_sensors_self o a b show ?thesis by blast
qed



section \<open>Properties of the spectral features and of the 32-sample guard\<close>

lemma fold_preserves:
  "(\<And>x d. P d \<Longrightarrow> P (f x d)) \<Longrightarrow> P d \<Longrightarrow> P (fold f xs d)"
  by (induction xs arbitrary: d) auto

lemma set_update_cases2:
  "(k', v') \<in> set (AList.update k v al) \<Longrightarrow> (k', v') = (k, v) \<or> (k', v') \<in> set al"
  by (induction al) (auto split: if_splits)

lemma set_map_entry_cases2:
  "(k', v') \<in> set (AList.map_entry k f al) \<Longrightarrow>
     (k', v') \<in> set al \<or> (\<exists>v0. (k, v0) \<in> set al \<and> k' = k \<and> v' = f v0)"
  by (induction al) (auto split: if_splits)

lemma slot_ok_update:
  "slot_ok sl \<Longrightarrow> (\<exists>xs. e = Series xs) \<or> skipped l \<Longrightarrow> slot_ok (AList.update l e sl)"
proof -
  assume ok: "slot_ok sl" and e: "(\<exists>xs. e = Series xs) \<or> skipped l"
  have "distinct (map fst (AList.update l e sl))" using ok by (simp add: slot_ok_def distinct_update)
  moreover have "(\<exists>xs. e' = Series xs) \<or> skipped l'" if "(l', e') \<in> set (AList.update l e sl)" for l' e'
  proof -
    from that consider "(l', e') = (l, e)" | "(l', e') \<in> set sl" using set_update_cases2 by fastforce
    then show ?thesis
    proof cases
      case 1
      with e show ?thesis by simp
    next
      case 2
      with ok show ?thesis unfolding slot_ok_def by blast
    qed
  qed
  ultimately show ?thesis unfolding slot_ok_def by blast
qed

lemma slots_ok_set_label:
  assumes "slots_ok d" "(\<exists>xs. e = Series xs) \<or> skipped l"
  shows "slots_ok (set_label s l e d)"
  unfolding slots_ok_def set_label_def
proof (intro ballI, clarify)
  fix k sl assume "(k, sl) \<in> set (AList.map_entry s (AList.update l e) d)"
  then consider "(k, sl) \<in> set d" | v0 where "(s, v0) \<in> set d" "sl = AList.update l e v0"
    using set_map_entry_cases2[of k sl s "AList.update l e" d] by blast
  then show "slot_ok sl"
  proof cases
    case 1
    with assms(1) show ?thesis unfolding slots_ok_def by blast
  next
    case 2
    with assms(1) have "slot_ok v0" unfolding slots_ok_def by blast
    with 2 assms(2) show ?thesis by (simp add: slot_ok_update)
  qed
qed

lemma skipped_correlation_label: "skipped (correlation_label l)"
  by (simp add: skipped_def correlation_label_def)

lemma slots_ok_empty: "slots_ok (empty_dancer m)"
proof -
  have "slots_ok (AList.update k [] d)" if "slots_ok d" for k d
    using that set_update_cases2[of _ _ k "[]" d] unfolding slots_ok_def
    by (fastforce simp: slot_ok_def)
  then have "slots_ok (fold (\<lambda>sensor_num d. AList.update (snsr sensor_num) [] d) ns [])" for ns
    by (rule fold_preserves[where P = slots_ok]) (simp_all add: slots_ok_def)
  then show ?thesis unfolding empty_dancer_def .
qed

lemma slots_ok_zero_series: "slots_ok d \<Longrightarrow> slots_ok (zero_series m d)"
  unfolding zero_series_def
  by (rule fold_preserves[where P = slots_ok], rule fold_preserves[where P = slots_ok])
     (simp_all add: slots_ok_set_label)

lemma slots_ok_correlation_series: "slots_ok d \<Longrightarrow> slots_ok (correlation_series n m d1 d)"
  unfolding correlation_series_def add_correlation_def
  by (rule fold_preserves[where P = slots_ok], rule fold_preserves[where P = slots_ok],
      rule fold_preserves[where P = slots_ok], rule fold_preserves[where P = slots_ok])
     (simp_all add: slots_ok_set_label skipped_correlation_label)

lemma keys_set_label: "fst ` set (set_label s l e d) = fst ` set d"
  unfolding set_label_def by (rule dom_map_entry)

lemma keys_zero_series: "fst ` set (zero_series m d) = fst ` set d"
  unfolding zero_series_def
  by (rule fold_preserves[where P = "\<lambda>x. fst ` set x = fst ` set d"],
      rule fold_preserves[where P = "\<lambda>x. fst ` set x = fst ` set d"])
     (simp_all add: keys_set_label)

lemma keys_correlation_series: "fst ` set (correlation_series n m d1 d) = fst ` set d"
  unfolding correlation_series_def add_correlation_def
  by (rule fold_preserves[where P = "\<lambda>x. fst ` set x = fst ` set d"],
      rule fold_preserves[where P = "\<lambda>x. fst ` set x = fst ` set d"],
      rule fold_preserves[where P = "\<lambda>x. fst ` set x = fst ` set d"],
      rule fold_preserves[where P = "\<lambda>x. fst ` set x = fst ` set d"])
     (simp_all add: keys_set_label)

lemma keys_empty_dancer: "fst ` set (empty_dancer m) = snsr ` {1..m}"
proof -
  have "fst ` set (fold (\<lambda>sensor_num d. AList.update (snsr sensor_num) [] d) ns d) = snsr ` set ns \<union> fst ` set d"
    for ns and d :: dancer
    by (induction ns arbitrary: d) (auto simp: dom_update)
  moreover have "set [1..<m + 1] = {1..m}" by (auto simp del: upt_Suc)
  ultimately show ?thesis unfolding empty_dancer_def by (simp del: upt_Suc)
qed

lemma map_of_present: "k \<in> fst ` set al \<Longrightarrow> \<exists>v. map_of al k = Some v"
  by (cases "map_of al k") (simp_all add: map_of_eq_None_iff)

lemma dancers_nth:
  "d \<in> set (dancers n m) \<Longrightarrow> \<exists>d1. d = correlation_series n m d1 (zero_series m (empty_dancer m))"
  unfolding dancers_def by auto

lemma dancers_wf: "wf_store m (dancers n m)"
  unfolding wf_store_def
proof (intro ballI allI impI)
  fix d i assume d: "d \<in> set (dancers n m)" and i: "1 \<le> i \<and> i \<le> m"
  from dancers_nth[OF d] obtain d1 where dd: "d = correlation_series n m d1 (zero_series m (empty_dancer m))"
    by (rule exE)
  have k: "fst ` set d = snsr ` {1..m}"
    unfolding dd keys_correlation_series keys_zero_series keys_empty_dancer by (rule refl)
  from i have "i \<in> {1..m}" by simp
  then have "snsr i \<in> snsr ` {1..m}" by (rule imageI)
  then have "snsr i \<in> fst ` set d" unfolding k .
  from map_of_present[OF this] obtain sl where sl: "map_of d (snsr i) = Some sl"
    by (rule exE)
  have ok: "slots_ok d" unfolding dd
    by (rule slots_ok_correlation_series, rule slots_ok_zero_series, rule slots_ok_empty)
  from sl have "(snsr i, sl) \<in> set d" by (rule map_of_SomeD)
  with ok have "slot_ok sl" unfolding slots_ok_def by blast
  with sl show "\<exists>sl. map_of d (snsr i) = Some sl \<and> slot_ok sl" by blast
qed

lemma eligible_append: "eligible (a @ b) = eligible a @ eligible b"
  by (simp add: eligible_def)

lemma eligible_Nil: "eligible [] = []"
  by (simp add: eligible_def)

lemma eligible_Cons:
  "eligible ((l, e) # items) =
     (case e of Series xs \<Rightarrow> if \<not> skipped l \<and> 32 \<le> length xs then [(l, xs)] else [] | CorrMap c \<Rightarrow> [])
     @ eligible items"
  by (simp add: eligible_def)

lemma collect_append:
  "collect f (a @ b) out = (case collect f a out of Inl e \<Rightarrow> Inl e | Inr out' \<Rightarrow> collect f b out')"
proof (induction a arbitrary: out)
  case Nil
  then show ?case by simp
next
  case (Cons item a)
  obtain l xs where item: "item = (l, xs)" by (cases item)
  show ?case unfolding item using Cons.IH by (cases "f l xs") simp_all
qed

lemma collect_total:
  "collect (\<lambda>l xs. Inr (g l xs)) items out = Inr (out @ map (\<lambda>(l, xs). g l xs) items)"
proof (induction items arbitrary: out)
  case Nil
  then show ?case by simp
next
  case (Cons item items)
  obtain l xs where item: "item = (l, xs)" by (cases item)
  show ?case unfolding item using Cons.IH[of "out @ [g l xs]"] by simp
qed

lemma collect_raises:
  assumes "(l, xs) \<in> set items" "f l xs = Inl e"
    and "\<And>l xs e'. (l, xs) \<in> set items \<Longrightarrow> f l xs = Inl e' \<Longrightarrow> e' = e"
  shows "collect f items out = Inl e"
  using assms
proof (induction items arbitrary: out)
  case Nil
  then show ?case by simp
next
  case (Cons item items)
  obtain l' xs' where item: "item = (l', xs')" by (cases item)
  show ?case
  proof (cases "f l' xs'")
    case (Inl e')
    have "(l', xs') \<in> set (item # items)" unfolding item by simp
    from Cons.prems(3)[OF this Inl] Inl show ?thesis unfolding item by simp
  next
    case (Inr v)
    with Cons.prems(1,2) item have mem: "(l, xs) \<in> set items" by auto
    have "collect f items (out @ [v]) = Inl e"
      by (rule Cons.IH[OF mem Cons.prems(2)]) (rule Cons.prems(3), simp_all)
    with Inr show ?thesis unfolding item by simp
  qed
qed

lemma collect_length:
  "collect f items out = Inr res \<Longrightarrow> length res = length out + length items"
proof (induction items arbitrary: out)
  case Nil
  then show ?case by simp
next
  case (Cons item items)
  obtain l xs where item: "item = (l, xs)" by (cases item)
  from Cons.prems obtain v where v: "f l xs = Inr v" and r: "collect f items (out @ [v]) = Inr res"
    unfolding item by (cases "f l xs") simp_all
  from Cons.IH[OF r] show ?case by simp
qed

lemma feature_labels_eq:
  assumes ok: "slot_ok sl"
  shows "set items \<subseteq> set sl \<Longrightarrow>
     feature_labels f sl (map fst items) out = collect f (eligible items) out"
proof (induction items arbitrary: out)
  case Nil
  then show ?case by (simp add: eligible_Nil)
next
  case (Cons item items)
  obtain l e where item: "item = (l, e)" by (cases item)
  from Cons.prems item have mem: "(l, e) \<in> set sl" and sub: "set items \<subseteq> set sl" by auto
  from ok have "distinct (map fst sl)" by (simp add: slot_ok_def)
  then have look: "map_of sl l = Some e" using mem by (rule map_of_is_SomeI)
  note IH = Cons.IH[OF sub]
  show ?case
  proof (cases "skipped l")
    case True
    then show ?thesis unfolding item using IH by (cases e) (simp_all add: eligible_Cons)
  next
    case False
    with ok mem obtain xs where e: "e = Series xs" unfolding slot_ok_def by blast
    show ?thesis
    proof (cases "length xs < 32")
      case True
      with False look e show ?thesis unfolding item using IH
        by (simp add: eligible_Cons entry_len_def)
    next
      case False
      note long = this
      show ?thesis
      proof (cases "f l xs")
        case (Inl err)
        with long \<open>\<not> skipped l\<close> look e show ?thesis unfolding item
          by (simp add: eligible_Cons entry_len_def)
      next
        case (Inr v)
        with long \<open>\<not> skipped l\<close> look e show ?thesis unfolding item using IH[of "out @ [v]"]
          by (simp add: eligible_Cons entry_len_def)
      qed
    qed
  qed
qed

lemma feature_sensors_eq:
  "\<forall>i\<in>set is. \<exists>sl. map_of d (snsr i) = Some sl \<and> slot_ok sl \<Longrightarrow>
     feature_sensors f d is out = collect f (eligible (concat (map (slot_items d) is))) out"
proof (induction "is" arbitrary: out)
  case Nil
  then show ?case by (simp add: eligible_Nil)
next
  case (Cons i "is")
  from Cons.prems obtain sl where sl: "map_of d (snsr i) = Some sl" "slot_ok sl" by auto
  from Cons.prems have rest: "\<forall>i\<in>set is. \<exists>sl. map_of d (snsr i) = Some sl \<and> slot_ok sl" by simp
  have 1: "feature_labels f sl (map fst sl) out = collect f (eligible sl) out"
    using feature_labels_eq[OF sl(2), of sl f out] by simp
  show ?case
  proof (cases "collect f (eligible sl) out")
    case (Inl e)
    with sl(1) 1 show ?thesis by (simp add: slot_items_def eligible_append collect_append)
  next
    case (Inr out')
    with sl(1) 1 Cons.IH[OF rest, of out'] show ?thesis
      by (simp add: slot_items_def eligible_append collect_append)
  qed
qed

lemma feature_dancers_eq:
  "wf_store n st \<Longrightarrow> feature_dancers f n st out = collect f (eligible (channels n st)) out"
proof (induction st arbitrary: out)
  case Nil
  then show ?case by (simp add: channels_def eligible_Nil)
next
  case (Cons d st)
  from Cons.prems have d: "\<forall>i\<in>set [1..<n + 1]. \<exists>sl. map_of d (snsr i) = Some sl \<and> slot_ok sl"
    and rest: "wf_store n st"
    by (auto simp: wf_store_def simp del: upt_Suc)
  have c: "channels n (d # st) = concat (map (slot_items d) [1..<n + 1]) @ channels n st"
    unfolding channels_def slot_items_def by simp
  show ?case
  proof (cases "collect f (eligible (concat (map (slot_items d) [1..<n + 1]))) out")
    case (Inl e)
    with feature_sensors_eq[OF d, of f out] show ?thesis
      unfolding c by (simp add: eligible_append collect_append del: upt_Suc)
  next
    case (Inr out')
    with feature_sensors_eq[OF d, of f out] Cons.IH[OF rest, of out'] show ?thesis
      unfolding c by (simp add: eligible_append collect_append del: upt_Suc)
  qed
qed

lemma calculate_fft_eq:
  "wf_store n st \<Longrightarrow>
     fst (calculate_fft n st) = Inr (map (\<lambda>(l, xs). fft_feature l xs) (eligible (channels n st)))"
  unfolding calculate_fft_def by (simp add: feature_dancers_eq collect_total)

lemma calculate_mfcc_eq:
  "wf_store n st \<Longrightarrow>
     fst (calculate_mfcc mfcc fs n st) = collect (mfcc_feature mfcc fs) (eligible (channels n st)) []"
  unfolding calculate_mfcc_def by (simp add: feature_dancers_eq)

lemma mfcc_feature_cases:
  "mfcc_feature mfcc fs l xs =
     (if substring_in ''ori'' l \<or> substring_in ''mag'' l
      then Inr (map (map abs) (mfcc (periodic l (window xs)) fs 32 13))
      else Inl ParameterError)"
  by (simp add: mfcc_feature_def librosa_mfcc_def mfcc_input_def periodic_def)

lemma eligible_long: "(l, xs) \<in> set (eligible items) \<Longrightarrow> 32 \<le> length xs \<and> \<not> skipped l \<and> (l, Series xs) \<in> set items"
  unfolding eligible_def by (auto split: entry.splits if_splits)

lemma length_rfft: "length (rfft w) = length w div 2 + 1"
  by (simp add: rfft_def)

lemma length_window: "32 \<le> length xs \<Longrightarrow> length (window xs) = 32"
  by (simp add: window_def)

lemma length_periodic: "length (periodic l w) = length w"
  by (simp add: periodic_def)

lemma length_fft_feature: "32 \<le> length xs \<Longrightarrow> length (fft_feature l xs) = 17"
  by (simp add: fft_feature_def length_rfft length_periodic length_window)

lemma put_series_wf:
  assumes wf: "wf_store n st" and p: "series_at st p = Inr xs"
  shows "wf_store n (put_series st p ys)"
proof -
  obtain k sk lbl where pp: "p = (k, sk, lbl)" by (cases p)
  from p pp have k: "k < length st" by (simp add: series_at_def split: if_splits)
  with p pp obtain sl0 where sl0: "map_of (st ! k) sk = Some sl0" "map_of sl0 lbl = Some (Series xs)"
    by (auto simp: series_at_def split: option.splits entry.splits)
  define d' where "d' = AList.map_entry sk (AList.update lbl (Series ys)) (st ! k)"
  have put: "put_series st p ys = st[k := d']" unfolding pp put_series_def d'_def by simp
  have m: "map_of d' = (map_of (st ! k))(sk \<mapsto> AList.update lbl (Series ys) sl0)"
    unfolding d'_def using sl0(1) by (simp add: map_of_map_entry)
  from k have dk: "st ! k \<in> set st" by (rule nth_mem)
  show ?thesis unfolding wf_store_def put
  proof (intro ballI allI impI)
    fix d i assume d: "d \<in> set (st[k := d'])" and i: "1 \<le> i \<and> i \<le> n"
    from d have "d = d' \<or> d \<in> set st" using set_update_subset_insert[of st k d'] by auto
    then show "\<exists>sl. map_of d (snsr i) = Some sl \<and> slot_ok sl"
    proof
      assume "d \<in> set st"
      with wf i show ?thesis unfolding wf_store_def by blast
    next
      assume dd: "d = d'"
      from wf dk i obtain sl where sl: "map_of (st ! k) (snsr i) = Some sl" "slot_ok sl"
        unfolding wf_store_def by blast
      show ?thesis
      proof (cases "snsr i = sk")
        case True
        with sl sl0 have "sl0 = sl" by simp
        with sl(2) have "slot_ok (AList.update lbl (Series ys) sl0)" by (simp add: slot_ok_update)
        with True show ?thesis unfolding dd m by simp
      next
        case False
        with sl show ?thesis unfolding dd m by simp
      qed
    qed
  qed
qed

lemma append_val_wf: "wf_store n (store t) \<Longrightarrow> wf_store n (store (snd (append_val p v t)))"
  by (cases "series_at (store t) p") (simp_all add: append_val_def put_series_wf)

lemma cutoff_wf: "wf_store n (store t) \<Longrightarrow> wf_store n (store (snd (cutoff p t)))"
  by (cases "series_at (store t) p") (simp_all add: cutoff_def put_series_wf)

lemma append_item_wf: "wf_store n (store t) \<Longrightarrow> wf_store n (store (snd (append_item p xs i t)))"
  by (cases "series_at (store t) p"; cases "item xs i") (simp_all add: append_item_def append_val_wf)

lemma and_then_wf:
  assumes "wf_store n (store (snd r))" "\<And>t. wf_store n (store t) \<Longrightarrow> wf_store n (store (snd (f t)))"
  shows "wf_store n (store (snd (and_then r f)))"
proof (cases r)
  case (Pair e t)
  with assms show ?thesis by (cases e) (simp_all add: and_then_def)
qed

lemma send_axes_wf:
  "wf_store n (store t) \<Longrightarrow> wf_store n (store (snd (send_axes d sk dt i vs t)))"
proof (induction vs arbitrary: i t)
  case Nil
  then show ?case by simp
next
  case (Cons v vs)
  show ?case
  proof (cases "length axes \<le> i")
    case True
    with Cons.prems show ?thesis by simp
  next
    case False
    have "wf_store n (store (snd (and_then (append_val (d, sk, dt @ ''_'' @ axes ! i) v t)
            (\<lambda>t. and_then (cutoff (d, sk, dt @ ''_'' @ axes ! i) t) (send_axes d sk dt (Suc i) vs)))))"
      by (intro and_then_wf append_val_wf cutoff_wf Cons.IH Cons.prems)
    with False show ?thesis by (simp add: Let_def)
  qed
qed

lemma send_data_wf:
  "wf_store n (store t) \<Longrightarrow> wf_store n (store (snd (send_data sid dt v t)))"
proof (cases "map_of locations sid")
  case None
  assume "wf_store n (store t)"
  with None show ?thesis by (simp add: send_data_def)
next
  case (Some loc)
  assume wf: "wf_store n (store t)"
  obtain pos dancer_no s_idx where loc: "loc = (pos, dancer_no, s_idx)" by (cases loc)
  show ?thesis
    unfolding send_data_def Some loc option.case prod.case Let_def
    by (simp only: split: if_split)
       (intro conjI impI and_then_wf append_item_wf cutoff_wf send_axes_wf wf; simp add: wf)
qed

lemma send_all_wf:
  "wf_store n (store t) \<Longrightarrow> wf_store n (store (snd (send_all calls t)))"
proof (induction calls arbitrary: t)
  case Nil
  then show ?case by simp
next
  case (Cons c calls)
  obtain sid dt v where c: "c = (sid, dt, v)" by (cases c)
  show ?case unfolding c send_all.simps
    by (intro and_then_wf send_data_wf Cons.IH Cons.prems)
qed

lemma length_trim: "500 \<le> length xs \<Longrightarrow> 500 \<le> length (trim xs)"
  by (cases xs) (simp_all add: trim_def)

lemma put_series_stocked:
  assumes "stocked st0 st" "series_at st p = Inr xs" "500 \<le> length ys"
  shows "stocked st0 (put_series st p ys)"
  unfolding stocked_def
proof (intro conjI allI impI)
  fix q zs assume a: "series_at (put_series st p ys) q = Inr zs"
  show "500 \<le> length zs"
  proof (cases "q = p")
    case True
    with a have "zs = ys" by (simp add: series_at_put[OF assms(2)])
    with assms(3) show ?thesis by simp
  next
    case False
    with a have "series_at st q = Inr zs" by (simp add: series_at_put[OF assms(2)])
    with assms(1) show ?thesis unfolding stocked_def by blast
  qed
next
  fix q zs assume "series_at st0 q = Inr zs"
  with assms(1) obtain ws where "series_at st q = Inr ws" unfolding stocked_def by blast
  then show "\<exists>ys'. series_at (put_series st p ys) q = Inr ys'"
    unfolding series_at_put[OF assms(2)] by simp
qed

lemma append_val_stocked: "stocked st0 (store t) \<Longrightarrow> stocked st0 (store (snd (append_val p v t)))"
proof (cases "series_at (store t) p")
  case (Inl e)
  assume "stocked st0 (store t)"
  with Inl show ?thesis by (simp add: append_val_def)
next
  case (Inr xs)
  assume s: "stocked st0 (store t)"
  with Inr have "500 \<le> length xs" unfolding stocked_def by blast
  then have "500 \<le> length (xs @ [v])" by simp
  with s Inr have "stocked st0 (put_series (store t) p (xs @ [v]))" by (rule put_series_stocked)
  with Inr show ?thesis by (simp add: append_val_def)
qed

lemma cutoff_stocked: "stocked st0 (store t) \<Longrightarrow> stocked st0 (store (snd (cutoff p t)))"
proof (cases "series_at (store t) p")
  case (Inl e)
  assume "stocked st0 (store t)"
  with Inl show ?thesis by (simp add: cutoff_def)
next
  case (Inr xs)
  assume s: "stocked st0 (store t)"
  with Inr have "500 \<le> length xs" unfolding stocked_def by blast
  then have "500 \<le> length (trim xs)" by (rule length_trim)
  with s Inr have "stocked st0 (put_series (store t) p (trim xs))" by (rule put_series_stocked)
  with Inr show ?thesis by (simp add: cutoff_def)
qed

lemma append_item_stocked:
  "stocked st0 (store t) \<Longrightarrow> stocked st0 (store (snd (append_item p xs i t)))"
  by (cases "series_at (store t) p"; cases "item xs i") (simp_all add: append_item_def append_val_stocked)

lemma and_then_stocked:
  assumes "stocked st0 (store (snd r))" "\<And>t. stocked st0 (store t) \<Longrightarrow> stocked st0 (store (snd (f t)))"
  shows "stocked st0 (store (snd (and_then r f)))"
proof (cases r)
  case (Pair e t)
  with assms show ?thesis by (cases e) (simp_all add: and_then_def)
qed

lemma send_axes_stocked:
  "stocked st0 (store t) \<Longrightarrow> stocked st0 (store (snd (send_axes d sk dt i vs t)))"
proof (induction vs arbitrary: i t)
  case Nil
  then show ?case by simp
next
  case (Cons v vs)
  show ?case
  proof (cases "length axes \<le> i")
    case True
    with Cons.prems show ?thesis by simp
  next
    case False
    have "stocked st0 (store (snd (and_then (append_val (d, sk, dt @ ''_'' @ axes ! i) v t)
            (\<lambda>t. and_then (cutoff (d, sk, dt @ ''_'' @ axes ! i) t) (send_axes d sk dt (Suc i) vs)))))"
      by (intro and_then_stocked append_val_stocked cutoff_stocked Cons.IH Cons.prems)
    with False show ?thesis by (simp add: Let_def)
  qed
qed

lemma send_data_stocked:
  "stocked st0 (store t) \<Longrightarrow> stocked st0 (store (snd (send_data sid dt v t)))"
proof (cases "map_of locations sid")
  case None
  assume "stocked st0 (store t)"
  with None show ?thesis by (simp add: send_data_def)
next
  case (Some loc)
  assume s: "stocked st0 (store t)"
  obtain pos dancer_no s_idx where loc: "loc = (pos, dancer_no, s_idx)" by (cases loc)
  show ?thesis
    unfolding send_data_def Some loc option.case prod.case Let_def
    by (simp only: split: if_split)
       (intro conjI impI and_then_stocked append_item_stocked cutoff_stocked send_axes_stocked s; simp add: s)
qed

lemma send_all_stocked:
  "stocked st0 (store t) \<Longrightarrow> stocked st0 (store (snd (send_all calls t)))"
proof (induction calls arbitrary: t)
  case Nil
  then show ?case by simp
next
  case (Cons c calls)
  obtain sid dt v where c: "c = (sid, dt, v)" by (cases c)
  show ?case unfolding c send_all.simps
    by (intro and_then_stocked send_data_stocked Cons.IH Cons.prems)
qed

lemma dancers_stocked: "stocked (dancers k n) (dancers k n)"
  unfolding stocked_def
proof (intro conjI allI impI)
  fix p xs assume "series_at (dancers k n) p = Inr xs"
  then have "xs = zeros" by (rule initial_series_zeros)
  then show "500 \<le> length xs" by (simp add: zeros_def)
next
  fix p xs assume "series_at (dancers k n) p = Inr xs"
  then show "\<exists>ys. series_at (dancers k n) p = Inr ys" by (rule exI)
qed

lemma reachable_stocked:
  "stocked (dancers k n) (store (snd (send_all calls \<lparr>store = dancers k n, appended = []\<rparr>)))"
  by (rule send_all_stocked) (simp add: dancers_stocked)

lemma entry_at_set_label:
  "entry_at (set_label s' l' e' d) s l =
     (if s = s' \<and> l = l' \<and> map_of d s' \<noteq> None then Inr e' else entry_at d s l)"
  unfolding set_label_def entry_at_def
  by (cases "map_of d s'") (auto simp: map_of_map_entry update_conv')

lemma key_set_label: "map_of (set_label s' l' e' d) s = None \<longleftrightarrow> map_of d s = None"
  unfolding set_label_def by (cases "map_of d s'") (auto simp: map_of_map_entry)

lemma fold_establish:
  assumes "x \<in> set xs" and est: "\<And>d. I d \<Longrightarrow> Q (f x d)" and pres: "\<And>y d. Q d \<Longrightarrow> Q (f y d)"
    and inv: "\<And>y d. I d \<Longrightarrow> I (f y d)" and "I d0"
  shows "Q (fold f xs d0)"
  using assms(1,5)
proof (induction xs arbitrary: d0)
  case Nil
  then show ?case by simp
next
  case (Cons a xs)
  show ?case
  proof (cases "a = x")
    case True
    from Cons.prems(2) have "Q (f a d0)" unfolding True by (rule est)
    then have "Q (fold f xs (f a d0))" by (rule fold_preserves[where P = Q, rotated]) (rule pres)
    then show ?thesis by simp
  next
    case False
    with Cons.prems(1) have "x \<in> set xs" by simp
    moreover from Cons.prems(2) have "I (f a d0)" by (rule inv)
    ultimately have "Q (fold f xs (f a d0))" by (rule Cons.IH)
    then show ?thesis by simp
  qed
qed

lemma zero_series_entry:
  assumes i: "i \<in> set [1..<m + 1]" and l: "l \<in> set labels" and k: "map_of d (snsr i) \<noteq> None"
  shows "entry_at (zero_series m d) (snsr i) l = Inr (Series zeros)"
  unfolding zero_series_def
proof (rule fold_establish[where I = "\<lambda>d. map_of d (snsr i) \<noteq> None"
      and Q = "\<lambda>d. entry_at d (snsr i) l = Inr (Series zeros)", OF i _ _ _ k])
  fix d :: dancer assume kd: "map_of d (snsr i) \<noteq> None"
  show "entry_at (fold (\<lambda>label. set_label (snsr i) label (Series zeros)) labels d) (snsr i) l
          = Inr (Series zeros)"
    by (rule fold_establish[where I = "\<lambda>d. map_of d (snsr i) \<noteq> None"
          and Q = "\<lambda>d. entry_at d (snsr i) l = Inr (Series zeros)", OF l _ _ _ kd])
       (simp_all add: entry_at_set_label key_set_label)
next
  fix y and d :: dancer assume q: "entry_at d (snsr i) l = Inr (Series zeros)"
  show "entry_at (fold (\<lambda>label. set_label (snsr y) label (Series zeros)) labels d) (snsr i) l
          = Inr (Series zeros)"
    by (rule fold_preserves[where P = "\<lambda>d. entry_at d (snsr i) l = Inr (Series zeros)", rotated])
       (simp_all add: q entry_at_set_label)
next
  fix y and d :: dancer assume kd: "map_of d (snsr i) \<noteq> None"
  show "map_of (fold (\<lambda>label. set_label (snsr y) label (Series zeros)) labels d) (snsr i) \<noteq> None"
    by (rule fold_preserves[where P = "\<lambda>d. map_of d (snsr i) \<noteq> None", rotated])
       (simp_all add: kd key_set_label)
qed

lemma not_skipped_neq_correlation: "\<not> skipped l \<Longrightarrow> l \<noteq> correlation_label l'"
  using skipped_correlation_label by auto

lemma correlation_series_entry:
  assumes "\<not> skipped l" "entry_at d s l = Inr e"
  shows "entry_at (correlation_series n m d1 d) s l = Inr e"
  unfolding correlation_series_def add_correlation_def
  by (rule fold_preserves[where P = "\<lambda>d. entry_at d s l = Inr e", rotated], rule assms(2),
      rule fold_preserves[where P = "\<lambda>d. entry_at d s l = Inr e", rotated], assumption,
      rule fold_preserves[where P = "\<lambda>d. entry_at d s l = Inr e", rotated], assumption,
      rule fold_preserves[where P = "\<lambda>d. entry_at d s l = Inr e", rotated], assumption)
     (simp add: entry_at_set_label not_skipped_neq_correlation[OF assms(1)])

lemma dancers_entry:
  assumes d: "d \<in> set (dancers n m)" and i: "1 \<le> i \<and> i \<le> m" and l: "l \<in> set labels" "\<not> skipped l"
  shows "entry_at d (snsr i) l = Inr (Series zeros)"
proof -
  from dancers_nth[OF d] obtain d1 where dd: "d = correlation_series n m d1 (zero_series m (empty_dancer m))"
    by (rule exE)
  from i have ii: "i \<in> set [1..<m + 1]" by (simp del: upt_Suc)
  from i have "i \<in> {1..m}" by simp
  then have "snsr i \<in> snsr ` {1..m}" by (rule imageI)
  then have "snsr i \<in> fst ` set (empty_dancer m)" unfolding keys_empty_dancer .
  then have "map_of (empty_dancer m) (snsr i) \<noteq> None" by (simp add: map_of_eq_None_iff)
  with ii l(1) have "entry_at (zero_series m (empty_dancer m)) (snsr i) l = Inr (Series zeros)"
    by (rule zero_series_entry)
  with l(2) show ?thesis unfolding dd by (rule correlation_series_entry)
qed

lemma eligible_member:
  "(l, Series xs) \<in> set items \<Longrightarrow> \<not> skipped l \<Longrightarrow> 32 \<le> length xs \<Longrightarrow> (l, xs) \<in> set (eligible items)"
  unfolding eligible_def by force

lemma channels_member:
  assumes "d \<in> set st" "1 \<le> i \<and> i \<le> n" "map_of d (snsr i) = Some sl" "x \<in> set sl"
  shows "x \<in> set (channels n st)"
proof -
  from assms(2) have "i \<in> set [1..<n + 1]" by (simp del: upt_Suc)
  with assms(1,3,4) show ?thesis unfolding channels_def
    by (simp only: set_concat set_map) force
qed

lemma ori_p_not_skipped: "\<not> skipped ''ori_p''"
  by (simp add: skipped_def)

lemma initial_eligible:
  assumes "0 < n" "0 < m"
  shows "(''ori_p'', zeros) \<in> set (eligible_series m (dancers n m))"
proof -
  from assms(1) have d: "dancers n m ! 0 \<in> set (dancers n m)"
    by (intro nth_mem) (simp add: dancers_def)
  from assms(2) have i: "1 \<le> (1::nat) \<and> 1 \<le> m" by simp
  have "entry_at (dancers n m ! 0) (snsr 1) ''ori_p'' = Inr (Series zeros)"
    by (rule dancers_entry[OF d i]) (simp_all add: labels_def ori_p_not_skipped)
  then obtain sl where sl: "map_of (dancers n m ! 0) (snsr 1) = Some sl"
      "map_of sl ''ori_p'' = Some (Series zeros)"
    by (auto simp: entry_at_def split: option.splits)
  from sl(2) have "(''ori_p'', Series zeros) \<in> set sl" by (rule map_of_SomeD)
  with d i sl(1) have "(''ori_p'', Series zeros) \<in> set (channels m (dancers n m))"
    by (rule channels_member)
  then show ?thesis unfolding eligible_series_def
    by (rule eligible_member) (simp_all add: ori_p_not_skipped zeros_def)
qed

lemma reachable_wf:
  "wf_store n (store (snd (send_all calls \<lparr>store = dancers k n, appended = []\<rparr>)))"
  by (rule send_all_wf) (simp add: dancers_wf)

lemma eligible_lengths:
  "(l, xs) \<in> set (eligible items) \<Longrightarrow> 32 \<le> length xs"
  using eligible_long by blast

lemma eligible_count:
  assumes "\<forall>(l, e)\<in>set items. (\<exists>xs. e = Series xs) \<or> skipped l"
  shows "length (eligible items) = length (filter (\<lambda>(l, e). \<not> skipped l \<and> 32 \<le> entry_len e) items)"
  using assms
proof (induction items)
  case Nil
  then show ?case by (simp add: eligible_Nil)
next
  case (Cons item items)
  obtain l e where item: "item = (l, e)" by (cases item)
  from Cons.prems have rest: "\<forall>(l, e)\<in>set items. (\<exists>xs. e = Series xs) \<or> skipped l" by simp
  from Cons.prems item have h: "(\<exists>xs. e = Series xs) \<or> skipped l" by simp
  show ?case unfolding item using Cons.IH[OF rest] h
    by (cases e) (auto simp: eligible_Cons entry_len_def)
qed

lemma channels_entries:
  assumes wf: "wf_store n st" and x: "(l, e) \<in> set (channels n st)"
  shows "(\<exists>xs. e = Series xs) \<or> skipped l"
proof -
  have "set (channels n st) = (\<Union>d\<in>set st. \<Union>i\<in>set [1..<n + 1].
          set (case map_of d (snsr i) of None \<Rightarrow> [] | Some sl \<Rightarrow> sl))"
    unfolding channels_def by (simp del: upt_Suc)
  with x obtain d i where d: "d \<in> set st" and i: "i \<in> set [1..<n + 1]"
    and m: "(l, e) \<in> set (case map_of d (snsr i) of None \<Rightarrow> [] | Some sl \<Rightarrow> sl)"
    by blast
  from i have "1 \<le> i \<and> i \<le> n" by (simp del: upt_Suc)
  with wf d obtain sl where sl: "map_of d (snsr i) = Some sl" "slot_ok sl"
    unfolding wf_store_def by blast
  with m have "(l, e) \<in> set sl" by simp
  with sl(2) show ?thesis unfolding slot_ok_def by blast
qed

lemma correlation_label_inj: "correlation_label l = correlation_label l' \<Longrightarrow> l = l'"
  by (simp add: correlation_label_def)

lemma short_not_long:
  assumes "series_at st (k, s, l) = Inr xs" "length xs < 32"
  shows "\<not> long (st ! k) s l" "k < length st"
proof -
  from assms(1) show k: "k < length st" by (simp add: series_at_def split: if_splits)
  with assms(1) have "entry_at (st ! k) s l = Inr (Series xs)"
    by (auto simp: series_at_def entry_at_def split: option.splits entry.splits)
  with assms(2) show "\<not> long (st ! k) s l" by (simp add: long_def entry_len_def)
qed

lemma eligible_one_dancer:
  "eligible_series 1 (dancers 1 1) = map (\<lambda>l. (l, zeros)) spectral_labels"
  by code_simp

lemma short_store_wf: "wf_store 2 short_store"
  unfolding wf_store_def
proof (intro ballI allI impI)
  fix d i assume d: "d \<in> set short_store" and i: "1 \<le> i \<and> i \<le> (2::nat)"
  have 1: "slot_ok [(''acc_x'', Series (replicate 32 1)), (''correlation_acc_x'', CorrMap [(''snsr_2'', [])])]"
    by (simp add: slot_ok_def skipped_def)
  have 2: "slot_ok [(''acc_x'', Series (replicate 31 1))]"
    by (simp add: slot_ok_def)
  from i have "i = Suc 0 \<or> i = 2" by arith
  then show "\<exists>sl. map_of d (snsr i) = Some sl \<and> slot_ok sl"
  proof
    assume "i = Suc 0"
    with d 1 show ?thesis by (simp add: short_store_def snsr_Suc0)
  next
    assume "i = 2"
    with d 2 show ?thesis by (simp add: short_store_def snsr_2)
  qed
qed

lemma short_store_self: "calculate_correlation_self 2 short_store = (Inr [], short_store)"
  by (simp add: calculate_correlation_self_def short_store_def sensor_pairs_2
        snsr_Suc0 snsr_2 skipped_def entry_at_def entry_len_def)

lemma short_store_channels:
  "filter (\<lambda>(l, e). \<not> skipped l \<and> 32 \<le> entry_len e) (channels 2 short_store)
     = [(''acc_x'', Series (replicate 32 1))]"
proof -
  have u: "[1..<2 + 1] = [Suc 0, 2]" by code_simp
  show ?thesis unfolding channels_def u
    by (simp add: short_store_def snsr_Suc0 snsr_2 skipped_def entry_len_def)
qed

lemma short_store_eligible: "eligible (channels 2 short_store) = [(''acc_x'', replicate 32 1)]"
proof -
  have u: "[1..<2 + 1] = [Suc 0, 2]" by code_simp
  show ?thesis unfolding channels_def u
    by (simp add: short_store_def snsr_Suc0 snsr_2 skipped_def eligible_def)
qed

lemma acc_x_not_skipped: "\<not> skipped ''acc_x''"
  by (simp add: skipped_def)

lemma reachable_acc_x:
  assumes k: "0 < k" and n: "0 < n"
    and st: "st = store (snd (send_all calls \<lparr>store = dancers k n, appended = []\<rparr>))"
  shows "\<exists>ys. (''acc_x'', ys) \<in> set (eligible_series n st)"
proof -
  from k have len: "0 < length (dancers k n)" by (simp add: dancers_def)
  then have d: "dancers k n ! 0 \<in> set (dancers k n)" by (rule nth_mem)
  from n have i: "1 \<le> (1::nat) \<and> 1 \<le> n" by simp
  have "entry_at (dancers k n ! 0) (snsr 1) ''acc_x'' = Inr (Series zeros)"
    by (rule dancers_entry[OF d i]) (simp_all add: labels_def acc_x_not_skipped)
  with len have "series_at (dancers k n) (0, snsr 1, ''acc_x'') = Inr zeros"
    by (auto simp: entry_at_def series_at_def split: option.splits)
  with reachable_stocked[of k n calls] obtain ys where ys: "series_at st (0, snsr 1, ''acc_x'') = Inr ys"
    unfolding stocked_def st by blast
  with reachable_stocked[of k n calls] have long: "500 \<le> length ys" unfolding stocked_def st by blast
  from ys have l0: "0 < length st" by (simp add: series_at_def split: if_splits)
  then have d0: "st ! 0 \<in> set st" by (rule nth_mem)
  from ys l0 obtain sl where sl: "map_of (st ! 0) (snsr 1) = Some sl" "map_of sl ''acc_x'' = Some (Series ys)"
    by (auto simp: series_at_def split: option.splits entry.splits)
  from sl(2) have "(''acc_x'', Series ys) \<in> set sl" by (rule map_of_SomeD)
  with d0 i sl(1) have "(''acc_x'', Series ys) \<in> set (channels n st)" by (rule channels_member)
  then have "(''acc_x'', ys) \<in> set (eligible_series n st)" unfolding eligible_series_def
    by (rule eligible_member) (use long in \<open>simp_all add: acc_x_not_skipped\<close>)
  then show ?thesis by (rule exI)
qed

lemma acc_x_plain: "\<not> (substring_in ''ori'' ''acc_x'' \<or> substring_in ''mag'' ''acc_x'')"
  by simp

lemma mfcc_raises:
  assumes "(''acc_x'', ys) \<in> set items"
  shows "collect (mfcc_feature mfcc fs) items out = Inl ParameterError"
proof (rule collect_raises[OF assms])
  show "mfcc_feature mfcc fs ''acc_x'' ys = Inl ParameterError"
    unfolding mfcc_feature_cases using acc_x_plain by simp
next
  fix l xs e'
  assume "mfcc_feature mfcc fs l xs = Inl e'"
  then show "e' = ParameterError" unfolding mfcc_feature_cases by (simp split: if_splits)
qed

lemma series_one_dancer: "series_at (dancers 1 1) (0, ''snsr_1'', ''acc_x'') = Inr zeros"
  by code_simp

text \<open>
  C9.  On a store reached from \<open>dancers\<close> by \<open>send_data\<close> calls, \<open>calculate_fft\<close> returns
  one magnitude vector per eligible channel (label not \<open>tot_a\<close>, \<open>b_tot_a\<close>, \<open>rot\<close> or a
  correlation label, at least 32 stored samples), in the order of the loop nest over
  dancers, sensors and labels, and every vector has length 17.  \<open>calculate_mfcc\<close> runs
  its feature computation over the same channels in the same order, but the computation
  returns for the \<open>ori\<close> and \<open>mag\<close> labels only (with 13 rows, provided \<open>mfcc\<close> returns
  \<open>n_mfcc\<close> rows on an array): for every other label the \<open>else\<close> branch hands the Python
  list to \<open>mfcc\<close>, which raises \<open>ParameterError\<close>.  The \<open>acc\<close> channels are eligible on
  every such store with a dancer and a sensor, so there \<open>calculate_mfcc\<close> raises instead
  of returning one feature per eligible channel.
\<close>

theorem spectral_features:
  assumes "st = store (snd (send_all calls \<lparr>store = dancers k n, appended = []\<rparr>))"
  shows "fst (calculate_fft n st) = Inr (map (\<lambda>(l, xs). fft_feature l xs) (eligible_series n st)) \<and>
         (\<forall>(l, xs)\<in>set (eligible_series n st). length (fft_feature l xs) = 17) \<and>
         fst (calculate_mfcc mfcc fs n st) = collect (mfcc_feature mfcc fs) (eligible_series n st) [] \<and>
         (\<forall>l xs. mfcc_feature mfcc fs l xs =
            (if substring_in ''ori'' l \<or> substring_in ''mag'' l
             then Inr (map (map abs) (mfcc (periodic l (window xs)) fs 32 13))
             else Inl ParameterError)) \<and>
         ((\<forall>y sr. length (mfcc y sr 32 13) = 13) \<longrightarrow>
            (\<forall>l xs cc. mfcc_feature mfcc fs l xs = Inr cc \<longrightarrow> length cc = 13)) \<and>
         (0 < k \<and> 0 < n \<longrightarrow> fst (calculate_mfcc mfcc fs n st) = Inl ParameterError)"
proof -
  have wf: "wf_store n st" unfolding assms by (rule reachable_wf)
  have 1: "fst (calculate_fft n st) = Inr (map (\<lambda>(l, xs). fft_feature l xs) (eligible_series n st))"
    unfolding eligible_series_def using wf by (rule calculate_fft_eq)
  have 2: "\<forall>(l, xs)\<in>set (eligible_series n st). length (fft_feature l xs) = 17"
    unfolding eligible_series_def using eligible_lengths length_fft_feature by blast
  have 3: "fst (calculate_mfcc mfcc fs n st) = collect (mfcc_feature mfcc fs) (eligible_series n st) []"
    unfolding eligible_series_def using wf by (rule calculate_mfcc_eq)
  have 4: "\<forall>l xs. mfcc_feature mfcc fs l xs =
            (if substring_in ''ori'' l \<or> substring_in ''mag'' l
             then Inr (map (map abs) (mfcc (periodic l (window xs)) fs 32 13))
             else Inl ParameterError)"
    by (intro allI) (rule mfcc_feature_cases)
  have 5: "(\<forall>y sr. length (mfcc y sr 32 13) = 13) \<longrightarrow>
            (\<forall>l xs cc. mfcc_feature mfcc fs l xs = Inr cc \<longrightarrow> length cc = 13)"
    unfolding mfcc_feature_cases by (auto split: if_splits)
  have 6: "0 < k \<and> 0 < n \<longrightarrow> fst (calculate_mfcc mfcc fs n st) = Inl ParameterError"
  proof
    assume kn: "0 < k \<and> 0 < n"
    then have "0 < k" "0 < n" by simp_all
    from reachable_acc_x[OF this assms] obtain ys where "(''acc_x'', ys) \<in> set (eligible_series n st)"
      by (rule exE)
    then show "fst (calculate_mfcc mfcc fs n st) = Inl ParameterError"
      unfolding 3 by (rule mfcc_raises)
  qed
  from 1 2 3 4 5 6 show ?thesis by (intro conjI)
qed

theorem spectral_features_witness:
  "store Sensors_init = store (snd (send_all [] \<lparr>store = dancers 3 3, appended = []\<rparr>)) \<and>
   fst (calculate_mfcc mfcc_stub 100 3 (store Sensors_init)) = Inl ParameterError \<and>
   dancers 1 1 = store (snd (send_all [] \<lparr>store = dancers 1 1, appended = []\<rparr>)) \<and>
   fst (calculate_fft 1 (dancers 1 1)) = Inr (map (\<lambda>l. fft_feature l zeros) spectral_labels) \<and>
   length (fft_feature ''ori_p'' zeros) = 17 \<and>
   fst (calculate_mfcc mfcc_stub 100 1 (dancers 1 1)) = Inl ParameterError \<and>
   mfcc_feature mfcc_stub 100 ''acc_x'' zeros = Inl ParameterError \<and>
   length (mfcc_stub [] 100 32 13) = 13 \<and>
   mfcc_feature mfcc_stub 100 ''ori_p'' zeros = Inr (replicate 13 [0]) \<and>
   length (replicate 13 [0::real]) = 13 \<and>
   0 < (3::nat) \<and> 0 < (1::nat)"
proof -
  have h3: "store Sensors_init = store (snd (send_all [] \<lparr>store = dancers 3 3, appended = []\<rparr>))"
    by (simp add: Sensors_init_def)
  have h: "dancers 1 1 = store (snd (send_all [] \<lparr>store = dancers 1 1, appended = []\<rparr>))" by simp
  note t3 = spectral_features[OF h3, where mfcc = mfcc_stub and fs = 100]
  note t = spectral_features[OF h, where mfcc = mfcc_stub and fs = 100]
  have c: "\<forall>y sr. length (mfcc_stub y sr 32 13) = 13" by (simp add: mfcc_stub_def)
  have m: "(''ori_p'', zeros) \<in> set (eligible_series 1 (dancers 1 1))"
    by (rule initial_eligible) simp_all
  have e: "map (\<lambda>(l, xs). f l xs) (map (\<lambda>l. (l, zeros)) spectral_labels) = map (\<lambda>l. f l zeros) spectral_labels"
    for f :: "string \<Rightarrow> real list \<Rightarrow> 'f"
    by simp
  have k3: "0 < (3::nat) \<and> 0 < (3::nat)" by simp
  from t3 k3 have 0: "fst (calculate_mfcc mfcc_stub 100 3 (store Sensors_init)) = Inl ParameterError"
    by blast
  from t have 1: "fst (calculate_fft 1 (dancers 1 1)) = Inr (map (\<lambda>l. fft_feature l zeros) spectral_labels)"
    unfolding eligible_one_dancer e by (rule conjunct1)
  from t m have 2: "length (fft_feature ''ori_p'' zeros) = 17" by blast
  have k1: "0 < (1::nat) \<and> 0 < (1::nat)" by simp
  from t k1 have 3: "fst (calculate_mfcc mfcc_stub 100 1 (dancers 1 1)) = Inl ParameterError"
    by blast
  from t have f: "\<And>l xs. mfcc_feature mfcc_stub 100 l xs =
            (if substring_in ''ori'' l \<or> substring_in ''mag'' l
             then Inr (map (map abs) (mfcc_stub (periodic l (window xs)) 100 32 13))
             else Inl ParameterError)"
    by blast
  have 4: "mfcc_feature mfcc_stub 100 ''acc_x'' zeros = Inl ParameterError"
    unfolding f by simp
  have 6: "mfcc_feature mfcc_stub 100 ''ori_p'' zeros = Inr (replicate 13 [0])"
    unfolding f by (simp add: mfcc_stub_def)
  from t c 6 have 7: "length (replicate 13 [0::real]) = 13" by blast
  from c have 5: "length (mfcc_stub [] 100 32 13) = 13" by blast
  from k3 have k3': "0 < (3::nat)" by (rule conjunct1)
  from k1 have k1': "0 < (1::nat)" by (rule conjunct1)
  from h3 0 h 1 2 3 4 5 6 7 k3' k1' show ?thesis by (intro conjI)
qed

text \<open>
  C3 (as amended).  The guard \<open>len(\<dots>) < 32\<close> reads the length of the stored series,
  the initial zeros included.  A label whose stored entry has fewer than 32 elements is
  passed over by each of the three label loops, whatever feature is computed;
  \<open>calculate_fft\<close> returns as many features as there are non-skipped channels with at
  least 32 stored elements, and \<open>calculate_mfcc\<close> is its feature computation run over
  exactly these channels; and a channel with fewer than 32 stored samples has its
  correlation series left as they are by \<open>calculate_correlation_self\<close> and
  \<open>calculate_correlation_others\<close>.  On a store reached from \<open>dancers\<close> by \<open>send_data\<close> calls
  every sample list holds at least 500 values, so the guard never fires there.
\<close>

theorem short_channel_skipped:
  "(map_of sl label = Some e \<and> entry_len e < 32 \<longrightarrow>
      feature_labels feature sl (label # rest) out = feature_labels feature sl rest out) \<and>
   (entry_at d s1 label = Inr e1 \<and> entry_at d s2 label = Inr e2 \<and> (entry_len e1 < 32 \<or> entry_len e2 < 32) \<longrightarrow>
      self_labels s1 s2 (label # rest) d outc = self_labels s1 s2 rest d outc) \<and>
   (entry_at (st ! k1) s1 label = Inr e1 \<and> entry_at (st ! k2) s2 label = Inr e2 \<and>
      (entry_len e1 < 32 \<or> entry_len e2 < 32) \<longrightarrow>
      others_labels k1 s1 k2 s2 idx2 (label # rest) st outc = others_labels k1 s1 k2 s2 idx2 rest st outc) \<and>
   (wf_store n st \<longrightarrow>
      (\<exists>ffts. fst (calculate_fft n st) = Inr ffts \<and>
         length ffts = length (filter (\<lambda>(l, e). \<not> skipped l \<and> 32 \<le> entry_len e) (channels n st))) \<and>
      fst (calculate_mfcc mfcc fs n st) = collect (mfcc_feature mfcc fs) (eligible (channels n st)) [] \<and>
      length (eligible (channels n st))
        = length (filter (\<lambda>(l, e). \<not> skipped l \<and> 32 \<le> entry_len e) (channels n st)) \<and>
      (\<forall>ccs. fst (calculate_mfcc mfcc fs n st) = Inr ccs \<longrightarrow>
         length ccs = length (filter (\<lambda>(l, e). \<not> skipped l \<and> 32 \<le> entry_len e) (channels n st)))) \<and>
   (series_at st (k, s, l) = Inr xs \<and> length xs < 32 \<longrightarrow>
      (calculate_correlation_self n st = (r, st') \<longrightarrow>
         (\<forall>key. corr_series_at st' k s (correlation_label l) key = corr_series_at st k s (correlation_label l) key) \<and>
         (\<forall>s'. corr_series_at st' k s' (correlation_label l) s = corr_series_at st k s' (correlation_label l) s)) \<and>
      (calculate_correlation_others st = (r2, st2) \<longrightarrow>
         (\<forall>key. corr_series_at st2 k s (correlation_label l) key = corr_series_at st k s (correlation_label l) key) \<and>
         (k = 1 \<and> s = ''snsr_2'' \<longrightarrow>
            corr_series_at st2 0 ''snsr_2'' (correlation_label l) ''dancer_3''
              = corr_series_at st 0 ''snsr_2'' (correlation_label l) ''dancer_3''))) \<and>
   (sr = store (snd (send_all calls \<lparr>store = dancers k0 n0, appended = []\<rparr>)) \<longrightarrow>
      (\<forall>p ys. series_at sr p = Inr ys \<longrightarrow> 500 \<le> length ys))"
proof (intro conjI impI allI)
  assume "map_of sl label = Some e \<and> entry_len e < 32"
  then show "feature_labels feature sl (label # rest) out = feature_labels feature sl rest out"
    by simp
next
  assume "entry_at d s1 label = Inr e1 \<and> entry_at d s2 label = Inr e2 \<and> (entry_len e1 < 32 \<or> entry_len e2 < 32)"
  then show "self_labels s1 s2 (label # rest) d outc = self_labels s1 s2 rest d outc"
    by auto
next
  assume "entry_at (st ! k1) s1 label = Inr e1 \<and> entry_at (st ! k2) s2 label = Inr e2 \<and>
      (entry_len e1 < 32 \<or> entry_len e2 < 32)"
  then show "others_labels k1 s1 k2 s2 idx2 (label # rest) st outc = others_labels k1 s1 k2 s2 idx2 rest st outc"
    by auto
next
  assume wf: "wf_store n st"
  have c: "length (eligible (channels n st))
      = length (filter (\<lambda>(l, e). \<not> skipped l \<and> 32 \<le> entry_len e) (channels n st))"
    by (rule eligible_count) (use channels_entries[OF wf] in blast)
  show "\<exists>ffts. fst (calculate_fft n st) = Inr ffts \<and>
         length ffts = length (filter (\<lambda>(l, e). \<not> skipped l \<and> 32 \<le> entry_len e) (channels n st))"
    unfolding calculate_fft_eq[OF wf] using c by simp
  show m: "fst (calculate_mfcc mfcc fs n st) = collect (mfcc_feature mfcc fs) (eligible (channels n st)) []"
    using wf by (rule calculate_mfcc_eq)
  show "length (eligible (channels n st))
        = length (filter (\<lambda>(l, e). \<not> skipped l \<and> 32 \<le> entry_len e) (channels n st))"
    by (rule c)
  fix ccs assume "fst (calculate_mfcc mfcc fs n st) = Inr ccs"
  then have "collect (mfcc_feature mfcc fs) (eligible (channels n st)) [] = Inr ccs" unfolding m .
  from collect_length[OF this] c
  show "length ccs = length (filter (\<lambda>(l, e). \<not> skipped l \<and> 32 \<le> entry_len e) (channels n st))"
    by simp
next
  fix key
  assume sh: "series_at st (k, s, l) = Inr xs \<and> length xs < 32"
    and run: "calculate_correlation_self n st = (r, st')"
  from sh have nl: "\<not> long (st ! k) s l" using short_not_long by blast
  show "corr_series_at st' k s (correlation_label l) key = corr_series_at st k s (correlation_label l) key"
  proof (rule ccontr)
    assume "corr_series_at st' k s (correlation_label l) key \<noteq> corr_series_at st k s (correlation_label l) key"
    from kept_store_corr_frame[OF self_kept_store(1)[OF run] this]
    have "(s, correlation_label l, key) \<in> self_keys (sensor_pairs n) (st ! k)" by simp
    then obtain i l' where "long (st ! k) (snsr i) l'" "s = snsr i" "correlation_label l = correlation_label l'"
      unfolding self_keys_def by blast
    with nl show False using correlation_label_inj by blast
  qed
next
  fix s'
  assume sh: "series_at st (k, s, l) = Inr xs \<and> length xs < 32"
    and run: "calculate_correlation_self n st = (r, st')"
  from sh have nl: "\<not> long (st ! k) s l" using short_not_long by blast
  show "corr_series_at st' k s' (correlation_label l) s = corr_series_at st k s' (correlation_label l) s"
  proof (rule ccontr)
    assume "corr_series_at st' k s' (correlation_label l) s \<noteq> corr_series_at st k s' (correlation_label l) s"
    from kept_store_corr_frame[OF self_kept_store(1)[OF run] this]
    have "(s', correlation_label l, s) \<in> self_keys (sensor_pairs n) (st ! k)" by simp
    then obtain j l' where "long (st ! k) (snsr j) l'" "s = snsr j" "correlation_label l = correlation_label l'"
      unfolding self_keys_def by blast
    with nl show False using correlation_label_inj by blast
  qed
next
  fix key
  assume sh: "series_at st (k, s, l) = Inr xs \<and> length xs < 32"
    and run: "calculate_correlation_others st = (r2, st2)"
  from sh have nl: "\<not> long (st ! k) s l" using short_not_long by blast
  show "corr_series_at st2 k s (correlation_label l) key = corr_series_at st k s (correlation_label l) key"
  proof (rule ccontr)
    assume "corr_series_at st2 k s (correlation_label l) key \<noteq> corr_series_at st k s (correlation_label l) key"
    from combos_keys[OF kept_store_corr_frame[OF others_kept_store(1)[OF run] this]]
    obtain l' where "k = 0" "s = ''snsr_2''" "long (st ! 0) ''snsr_2'' l'"
      "correlation_label l = correlation_label l'" by blast
    with nl show False using correlation_label_inj by blast
  qed
next
  assume sh: "series_at st (k, s, l) = Inr xs \<and> length xs < 32"
    and run: "calculate_correlation_others st = (r2, st2)"
    and ks: "k = 1 \<and> s = ''snsr_2''"
  from sh ks have nl: "\<not> long (st ! 1) ''snsr_2'' l" using short_not_long by blast
  show "corr_series_at st2 0 ''snsr_2'' (correlation_label l) ''dancer_3''
              = corr_series_at st 0 ''snsr_2'' (correlation_label l) ''dancer_3''"
  proof (rule ccontr)
    assume "corr_series_at st2 0 ''snsr_2'' (correlation_label l) ''dancer_3''
              \<noteq> corr_series_at st 0 ''snsr_2'' (correlation_label l) ''dancer_3''"
    from combos_keys[OF kept_store_corr_frame[OF others_kept_store(1)[OF run] this]]
    obtain l' where "long (st ! 1) ''snsr_2'' l'" "correlation_label l = correlation_label l'" by blast
    with nl show False using correlation_label_inj by blast
  qed
next
  fix p ys
  assume sr: "sr = store (snd (send_all calls \<lparr>store = dancers k0 n0, appended = []\<rparr>))"
    and p: "series_at sr p = Inr ys"
  from reachable_stocked[of k0 n0 calls] p show "500 \<le> length ys"
    unfolding stocked_def sr by blast
qed

theorem short_channel_skipped_witness:
  "series_at short_store (0, ''snsr_2'', ''acc_x'') = Inr (replicate 31 1) \<and>
   length (replicate 31 (1::real)) < 32 \<and>
   calculate_correlation_self 2 short_store = (Inr [], short_store) \<and>
   wf_store 2 short_store \<and>
   length (filter (\<lambda>(l, e). \<not> skipped l \<and> 32 \<le> entry_len e) (channels 2 short_store)) = 1 \<and>
   (\<exists>ffts. fst (calculate_fft 2 short_store) = Inr ffts \<and> length ffts = 1) \<and>
   fst (calculate_mfcc mfcc_stub 100 2 short_store)
     = collect (mfcc_feature mfcc_stub 100) [(''acc_x'', replicate 32 1)] [] \<and>
   corr_series_at short_store 0 ''snsr_1'' ''correlation_acc_x'' ''snsr_2'' = Some [] \<and>
   feature_labels (mfcc_feature mfcc_stub 100) [(''acc_x'', Series (replicate 31 1))] [''acc_x''] [] = Inr [] \<and>
   dancers 1 1 = store (snd (send_all [] \<lparr>store = dancers 1 1, appended = []\<rparr>)) \<and>
   series_at (dancers 1 1) (0, ''snsr_1'', ''acc_x'') = Inr zeros \<and>
   500 \<le> length zeros"
proof -
  have a: "series_at short_store (0, ''snsr_2'', ''acc_x'') = Inr (replicate 31 1) \<and>
           length (replicate 31 (1::real)) < 32"
    by (simp add: series_at_def short_store_def)
  note t = short_channel_skipped[where st = short_store and n = 2 and k = 0 and s = "''snsr_2''"
      and l = "''acc_x''" and xs = "replicate 31 1" and r = "Inr []" and st' = short_store
      and sl = "[(''acc_x'', Series (replicate 31 1))]" and label = "''acc_x''"
      and e = "Series (replicate 31 1)" and feature = "mfcc_feature mfcc_stub 100"
      and rest = "[]" and out = "[]" and mfcc = mfcc_stub and fs = 100
      and sr = "dancers 1 1" and calls = "[]" and ?k0.0 = 1 and ?n0.0 = 1]
  have "map_of [(''acc_x'', Series (replicate 31 (1::real)))] ''acc_x'' = Some (Series (replicate 31 1)) \<and>
        entry_len (Series (replicate 31 (1::real))) < 32"
    by (simp add: entry_len_def)
  with t have "feature_labels (mfcc_feature mfcc_stub 100) [(''acc_x'', Series (replicate 31 1))] [''acc_x''] []
      = feature_labels (mfcc_feature mfcc_stub 100) [(''acc_x'', Series (replicate 31 1))] [] []"
    by blast
  then have g: "feature_labels (mfcc_feature mfcc_stub 100) [(''acc_x'', Series (replicate 31 1))] [''acc_x''] []
      = Inr []"
    by (simp only: feature_labels.simps(1))
  from t short_store_wf
  have f: "\<exists>ffts. fst (calculate_fft 2 short_store) = Inr ffts \<and>
         length ffts = length (filter (\<lambda>(l, e). \<not> skipped l \<and> 32 \<le> entry_len e) (channels 2 short_store))"
    by blast
  from t short_store_wf
  have "fst (calculate_mfcc mfcc_stub 100 2 short_store)
      = collect (mfcc_feature mfcc_stub 100) (eligible (channels 2 short_store)) []"
    by blast
  then have mf: "fst (calculate_mfcc mfcc_stub 100 2 short_store)
      = collect (mfcc_feature mfcc_stub 100) [(''acc_x'', replicate 32 1)] []"
    unfolding short_store_eligible .
  have c: "length (filter (\<lambda>(l, e). \<not> skipped l \<and> 32 \<le> entry_len e) (channels 2 short_store)) = 1"
    unfolding short_store_channels by simp
  have b: "corr_series_at short_store 0 ''snsr_1'' ''correlation_acc_x'' ''snsr_2'' = Some []"
    by (simp add: corr_series_at_def short_store_def)
  from f have f1: "\<exists>ffts. fst (calculate_fft 2 short_store) = Inr ffts \<and> length ffts = 1"
    unfolding c .
  have h: "dancers 1 1 = store (snd (send_all [] \<lparr>store = dancers 1 1, appended = []\<rparr>))" by simp
  from t h series_one_dancer have z: "500 \<le> length zeros" by blast
  from a short_store_self short_store_wf c f1 mf b g h series_one_dancer z show ?thesis
    by (intro conjI) (erule conjunct1 conjunct2 | assumption)+
qed

text \<open>
  C3 as stated fails: on the store \<open>__init__\<close> builds, into which no sample has been
  ingested, every eligible channel holds 500 zeros and \<open>calculate_fft\<close> returns features.
\<close>

theorem zero_filled_windows_counterexample:
  "appended Sensors_init = [] \<and>
   (\<exists>v vs. fst (calculate_fft 3 (store Sensors_init)) = Inr (v # vs))"
proof -
  have wf: "wf_store 3 (dancers 3 3)" by (rule dancers_wf)
  have "(''ori_p'', zeros) \<in> set (eligible_series 3 (dancers 3 3))"
    by (rule initial_eligible) simp_all
  then obtain x rest where e: "eligible (channels 3 (dancers 3 3)) = x # rest"
    unfolding eligible_series_def by (cases "eligible (channels 3 (dancers 3 3))") auto
  have "fst (calculate_fft 3 (dancers 3 3))
      = Inr (map (\<lambda>(l, xs). fft_feature l xs) (eligible (channels 3 (dancers 3 3))))"
    using wf by (rule calculate_fft_eq)
  then show ?thesis unfolding e by (simp add: Sensors_init_def)
qed


end
